theory Spec2Isabelle
  imports Main
begin

section \<open>State machines of the switch\<close>

text \<open>
  The switch (\<open>src/index.js\<close>), the outbound connection (\<open>ConnectionFSM\<close>,
  \<open>src/connection/index.js\<close>) and the inbound connection (\<open>IncomingConnectionFSM\<close>,
  \<open>src/connection/handler.js\<close>) each own a state machine built by \<open>FSM(start, table)\<close> of
  the package \<open>fsm-event\<close>. States and events are strings in the source; here they are
  constructors, and a table is the object literal of the source, row by row.
\<close>

datatype event =
  Ev_dial | Ev_done | Ev_error | Ev_abort | Ev_disconnect
  | Ev_encrypt | Ev_privatize | Ev_upgrade | Ev_stop | Ev_start

datatype conn_state =
  DISCONNECTED | DIALING | DIALED | PRIVATIZING | PRIVATIZED | ENCRYPTING | ENCRYPTED
  | UPGRADING | MUXED | CONNECTED | DISCONNECTING | ABORTED | ERRORED

datatype switch_state = STOPPED | STARTING | STARTED | STOPPING

type_synonym 's table = "('s \<times> (event \<times> 's) list) list"

text \<open>The table of \<open>ConnectionFSM._state\<close> (index.js, lines 59-109).\<close>

definition conn_table :: "conn_state table" where
  "conn_table =
    [(DISCONNECTED, [(Ev_dial, DIALING)]),
     (DIALING, [(Ev_abort, ABORTED), (Ev_done, DIALED), (Ev_error, ERRORED),
                (Ev_disconnect, DISCONNECTING)]),
     (DIALED, [(Ev_encrypt, ENCRYPTING), (Ev_privatize, PRIVATIZING)]),
     (PRIVATIZING, [(Ev_done, PRIVATIZED), (Ev_abort, ABORTED),
                    (Ev_disconnect, DISCONNECTING)]),
     (PRIVATIZED, [(Ev_encrypt, ENCRYPTING)]),
     (ENCRYPTING, [(Ev_done, ENCRYPTED), (Ev_error, ERRORED),
                   (Ev_disconnect, DISCONNECTING)]),
     (ENCRYPTED, [(Ev_upgrade, UPGRADING), (Ev_disconnect, DISCONNECTING)]),
     (UPGRADING, [(Ev_stop, CONNECTED), (Ev_done, MUXED), (Ev_error, ERRORED)]),
     (MUXED, [(Ev_disconnect, DISCONNECTING)]),
     (CONNECTED, [(Ev_disconnect, DISCONNECTING)]),
     (DISCONNECTING, [(Ev_done, DISCONNECTED)]),
     (ABORTED, []),
     (ERRORED, [(Ev_disconnect, DISCONNECTING)])]"


text \<open>The table of \<open>Switch.state\<close> (src/index.js, lines 78-92).\<close>

definition switch_table :: "switch_state table" where
  "switch_table =
    [(STOPPED, [(Ev_start, STARTING), (Ev_stop, STOPPING)]),
     (STARTING, [(Ev_done, STARTED), (Ev_stop, STOPPING)]),
     (STARTED, [(Ev_stop, STOPPING), (Ev_start, STARTED)]),
     (STOPPING, [(Ev_done, STOPPED)])]"

text \<open>
  \<open>fsm-event\<close> is a package the repository depends on. Its \<open>emit(str)\<close> reads
  \<open>table[state][str]\<close>; when the table has no such entry it emits \<open>error\<close> with the
  message \<open>invalid transition: state -> str\<close> on its emitter and leaves the state as it
  is; otherwise it stores the new state and emits the new state's name, which runs the
  handler registered with \<open>on(name, \<dots>)\<close>.
\<close>

definition next_state :: "'s table \<Rightarrow> 's \<Rightarrow> event \<Rightarrow> 's option" where
  "next_state tbl s e = (case map_of tbl s of None \<Rightarrow> None | Some row \<Rightarrow> map_of row e)"



section \<open>The switch and its outbound connections\<close>

type_synonym b58 = string
type_synonym ref = nat

text \<open>\<open>Circuit.tag\<close> of the package \<open>libp2p-circuit\<close>; \<open>hasTransports\<close> and
  \<open>availableTransports\<close> write the same string as a literal.\<close>

definition Circuit_tag :: string where
  "Circuit_tag = ''Circuit''"

text \<open>A connection: what a transport or a negotiation hands out, and the wrappers of
  \<open>observeConnection(transport, protocol, _conn, observer)\<close> and of \<open>crypto.encrypt\<close>.\<close>

datatype conn =
  Raw_conn nat
  | Observed "string option" "string option" conn
  | Encrypted conn

datatype err =
  DIAL_SELF
  | NO_TRANSPORTS_REGISTERED
  | Circuit_not_enabled b58
  | No_available_transports b58
  | Invalid_transition conn_state event
  | Unexpected_end
  | Lower string
  | Type_error

text \<open>Modelled from the spec: \<open>maybeUnexpectedEnd\<close> of \<open>src/errors.js\<close>, which is not among
  the sources: the classifier over lower-layer errors that maps the end of the stream to
  a kind of its own; the lower layer's end-of-stream error is \<open>Lower ''end''\<close> here.\<close>

definition maybeUnexpectedEnd :: "err \<Rightarrow> err" where
  "maybeUnexpectedEnd e = (if e = Lower ''end'' then Unexpected_end else e)"

text \<open>What an FSM waits for: the callback it passed to an asynchronous operation,
  with the variables the callback closes over.\<close>

datatype closure =
  Dial_cb string "string list" bool bool
    \<comment> \<open>\<open>transport\<close>, \<open>tKeys\<close>, \<open>circuitTried\<close>, \<open>circuitEnabled\<close>\<close>
  | Protect_cb
  | Encrypt_handle_cb
  | Encrypt_select_cb
  | Encrypt_crypto_cb
  | Upgrade_handle_cb "string list"
    \<comment> \<open>\<open>muxers\<close>\<close>
  | Upgrade_select_cb "string option" "string list"
    \<comment> \<open>\<open>key\<close>, \<open>muxers\<close>\<close>
  | New_stream_cb string nat
    \<comment> \<open>\<open>protocol\<close>, \<open>callback\<close>\<close>
  | Handshake_handle_cb string nat
  | Handshake_select_cb string nat

text \<open>Listeners on a muxer's \<open>close\<close> event: the one \<open>_onUpgrading\<close> installs, which
  triggers \<open>disconnect\<close> on its FSM, and the one \<open>hangUp\<close> installs, which removes the
  table entry and calls the caller's callback.\<close>

datatype close_listener =
  Close_disconnect ref
  | Close_hangUp b58 nat

text \<open>What the outside can observe, in the order it happens. The call of the callback of
  \<open>hangUp\<close> is recorded with \<open>muxedConns[key]\<close> as the callback finds it.\<close>

datatype action =
  Log_dialing b58
  | Log_state_error err
  | Log_upgrade_error err
  | Log_fallback
  | Emit_error err
  | Emit string
  | Switch_emit_later string "b58 option"
  | Peer_disconnect b58
  | Multiaddrs_add b58 string
  | Transport_dial string b58
  | Ms_handle "conn option"
  | Ms_select "string option"
  | Ms_add_handler string
  | Ms_listener_handle conn
  | Protocol_muxer conn
  | Protector_protect "conn option"
  | Set_peer_info conn "b58 option"
  | Muxer_dialer string conn
  | Muxer_new_stream ref
  | Muxer_end ref
  | Muxer_closed ref
  | Callback nat "err option" "conn option"
  | Crypto_encrypt conn
  | Custom_handler conn
  | Log_listener_error err
  | HangUp_callback nat "ref option"
  | Throw err

record conn_fsm =
  theirPeerInfo :: "b58 option"
  theirB58Id :: b58
  ourPeerInfo :: "b58 option"
  conn :: "conn option"
  muxer :: "ref option"
  state :: conn_state
  waiting :: "closure list"

text \<open>
  The switch with the objects it refers to. \<open>fsms\<close> is the store of \<open>ConnectionFSM\<close>
  objects and \<open>muxer_close\<close> the \<open>close\<close> listeners of each muxer object: \<open>conns\<close> and
  \<open>muxedConns\<close> hold references, as the source stores \<open>this\<close>. A \<open>PeerInfo\<close> is named by the
  base58 string of its id, and \<open>multiaddrs\<close> is its address set. \<open>transports\<close> and \<open>muxers\<close>
  are the keys of the two registries in insertion order. \<open>availableTransports\<close> stands for
  the method of that name applied to the addresses of a peer: its result depends on the
  transports' filters and on \<open>Array.prototype.sort\<close> with a one-argument comparator.
\<close>

record world =
  our_id :: b58
  transports :: "string list"
  muxers :: "string list"
  crypto_tag :: string
  availableTransports :: "string list \<Rightarrow> string list"
  conns :: "b58 \<rightharpoonup> ref"
  muxedConns :: "b58 \<rightharpoonup> ref"
  fsms :: "ref \<rightharpoonup> conn_fsm"
  muxer_close :: "ref \<Rightarrow> close_listener list"
  next_muxer :: ref
  multiaddrs :: "b58 \<Rightarrow> string list"
  trace :: "action list"

definition act :: "action \<Rightarrow> world \<Rightarrow> world" where
  "act a w = w\<lparr>trace := trace w @ [a]\<rparr>"

definition upd_fsm :: "ref \<Rightarrow> (conn_fsm \<Rightarrow> conn_fsm) \<Rightarrow> world \<Rightarrow> world" where
  "upd_fsm i g w =
     (case fsms w i of None \<Rightarrow> w | Some f \<Rightarrow> w\<lparr>fsms := (fsms w)(i \<mapsto> g f)\<rparr>)"

definition getState :: "world \<Rightarrow> ref \<Rightarrow> conn_state option" where
  "getState w i = map_option state (fsms w i)"

text \<open>Passing a callback to an asynchronous operation.\<close>

definition await :: "ref \<Rightarrow> closure \<Rightarrow> world \<Rightarrow> world" where
  "await i c w = upd_fsm i (\<lambda>f. f\<lparr>waiting := waiting f @ [c]\<rparr>) w"

definition resume :: "ref \<Rightarrow> closure \<Rightarrow> world \<Rightarrow> world" where
  "resume i c w = upd_fsm i (\<lambda>f. f\<lparr>waiting := remove1 c (waiting f)\<rparr>) w"

text \<open>\<open>!x\<close> for a string that may be \<open>undefined\<close> or \<open>null\<close>: the empty string is falsy too.\<close>

definition falsy :: "string option \<Rightarrow> bool" where
  "falsy k = (case k of None \<Rightarrow> True | Some s \<Rightarrow> s = [])"

text \<open>\<open>Array.prototype.shift\<close>: the first element, or \<open>undefined\<close>, and the rest.\<close>

definition shift :: "'a list \<Rightarrow> 'a option \<times> 'a list" where
  "shift xs = (case xs of [] \<Rightarrow> (None, []) | x # r \<Rightarrow> (Some x, r))"

text \<open>\<open>Switch.hasTransports\<close> (src/index.js, lines 187-190).\<close>

definition hasTransports :: "world \<Rightarrow> bool" where
  "hasTransports w = (length (filter (\<lambda>t. t \<noteq> ''Circuit'') (transports w)) > 0)"

text \<open>\<open>PeerInfo.multiaddrs.add\<close>: the address set of the package \<open>peer-info\<close> keeps one
  copy of an address.\<close>

definition multiaddrs_add :: "b58 \<Rightarrow> string \<Rightarrow> world \<Rightarrow> world" where
  "multiaddrs_add p a w =
     (act (Multiaddrs_add p a) w)\<lparr>multiaddrs := (multiaddrs w)
        (p := (if a \<in> set (multiaddrs w p) then multiaddrs w p else multiaddrs w p @ [a]))\<rparr>"


subsection \<open>Entry actions of the outbound FSM\<close>

text \<open>
  A handler runs to its end between two suspension points. Where the source ends a
  handler with \<open>this._state(ev)\<close>, the handler here returns \<open>Some ev\<close> and \<open>state_emit\<close>
  below makes the call.
\<close>

definition circuit_addr :: "b58 \<Rightarrow> string" where
  "circuit_addr b = ''/p2p-circuit/ipfs/'' @ b"

text \<open>\<open>this.switch.transport.dial(transport, this.theirPeerInfo, callback)\<close>
  (index.js, lines 239-248): the callback waits.\<close>

definition transport_dial ::
  "world \<Rightarrow> ref \<Rightarrow> string \<Rightarrow> string list \<Rightarrow> bool \<Rightarrow> bool \<Rightarrow> world \<times> event option" where
  "transport_dial w i t tKeys circuitTried circuitEnabled =
     (case fsms w i of
        None \<Rightarrow> (w, None)
      | Some f \<Rightarrow>
          (await i (Dial_cb t tKeys circuitTried circuitEnabled)
             (act (Transport_dial t (theirB58Id f)) w), None))"

text \<open>\<open>nextTransport(key)\<close> (index.js, lines 218-249), up to the call of
  \<open>transport.dial\<close>.\<close>

definition nextTransport ::
  "world \<Rightarrow> ref \<Rightarrow> string list \<Rightarrow> bool \<Rightarrow> bool \<Rightarrow> string option \<Rightarrow> world \<times> event option" where
  "nextTransport w i tKeys circuitTried circuitEnabled key =
     (case fsms w i of
        None \<Rightarrow> (w, None)
      | Some f \<Rightarrow>
          if falsy key then
            if \<not> circuitEnabled then
              (act (Emit_error (Circuit_not_enabled (theirB58Id f))) w, Some Ev_disconnect)
            else if circuitTried then
              (act (Emit_error (No_available_transports (theirB58Id f))) w, Some Ev_disconnect)
            else
              (case theirPeerInfo f of
                 None \<Rightarrow> (act (Throw Type_error) (act Log_fallback w), None)
               | Some p \<Rightarrow>
                   transport_dial
                     (multiaddrs_add p (circuit_addr (theirB58Id f)) (act Log_fallback w))
                     i Circuit_tag tKeys True circuitEnabled)
          else
            (case key of
               None \<Rightarrow> (w, None)
             | Some t \<Rightarrow> transport_dial w i t tKeys circuitTried circuitEnabled))"

text \<open>\<open>_onDialing\<close> (index.js, lines 203-252).\<close>

definition onDialing :: "world \<Rightarrow> ref \<Rightarrow> world \<times> event option" where
  "onDialing w i =
     (case fsms w i of
        None \<Rightarrow> (w, None)
      | Some f \<Rightarrow>
          let w1 = act (Log_dialing (theirB58Id f)) w in
          if \<not> hasTransports w1 then
            (act (Emit_error NO_TRANSPORTS_REGISTERED) w1, Some Ev_disconnect)
          else
            (case theirPeerInfo f of
               None \<Rightarrow> (act (Throw Type_error) w1, None)
             | Some p \<Rightarrow>
                 let tKeys = availableTransports w1 (multiaddrs w1 p);
                     circuitEnabled = (Circuit_tag \<in> set (transports w1));
                     (key, rest) = shift tKeys
                 in nextTransport w1 i rest False circuitEnabled key))"

text \<open>\<open>_onDisconnecting\<close> (index.js, lines 281-304).\<close>

definition disconnect_peers :: "conn_fsm \<Rightarrow> world \<Rightarrow> world" where
  "disconnect_peers f w =
     (let w1 = (case theirPeerInfo f of None \<Rightarrow> w | Some p \<Rightarrow> act (Peer_disconnect p) w)
      in (case ourPeerInfo f of None \<Rightarrow> w1 | Some p \<Rightarrow> act (Peer_disconnect p) w1))"

definition cleanup :: "ref \<Rightarrow> conn_fsm \<Rightarrow> world \<Rightarrow> world" where
  "cleanup i f w =
     (let w1 = (case muxer f of
                  None \<Rightarrow> w
                | Some m \<Rightarrow> act (Switch_emit_later ''peer-mux-closed'' (theirPeerInfo f)) w);
          w2 = w1\<lparr>muxedConns := (muxedConns w1)(theirB58Id f := None)\<rparr>;
          w3 = w2\<lparr>conns := (conns w2)(theirB58Id f := None)\<rparr>
      in upd_fsm i (\<lambda>g. g\<lparr>muxer := None, conn := None\<rparr>) w3)"

definition onDisconnecting :: "world \<Rightarrow> ref \<Rightarrow> world \<times> event option" where
  "onDisconnecting w i =
     (case fsms w i of
        None \<Rightarrow> (w, None)
      | Some f \<Rightarrow> (cleanup i f (disconnect_peers f w), Some Ev_done))"

text \<open>\<open>_onEncrypting\<close> (index.js, lines 313-315), up to the call of \<open>msDialer.handle\<close>.\<close>

definition onEncrypting :: "world \<Rightarrow> ref \<Rightarrow> world \<times> event option" where
  "onEncrypting w i =
     (case fsms w i of
        None \<Rightarrow> (w, None)
      | Some f \<Rightarrow> (await i Encrypt_handle_cb (act (Ms_handle (conn f)) w), None))"

text \<open>\<open>_onUpgrading\<close> (index.js, lines 352-361), up to the call of \<open>msDialer.handle\<close>.\<close>

definition onUpgrading :: "world \<Rightarrow> ref \<Rightarrow> world \<times> event option" where
  "onUpgrading w i =
     (case fsms w i of
        None \<Rightarrow> (w, None)
      | Some f \<Rightarrow>
          if length (muxers w) = 0 then (w, Some Ev_stop)
          else (await i (Upgrade_handle_cb (muxers w)) (act (Ms_handle (conn f)) w), None))"

text \<open>Modelled from the spec: \<open>_onPrivatizing\<close> of \<open>src/connection/base.js\<close>, which is not
  among the sources: run \<open>protector.protect(conn)\<close>, which replaces \<open>conn\<close>; on completion
  trigger \<open>done\<close>, on failure trigger \<open>disconnect\<close>.\<close>

definition onPrivatizing :: "world \<Rightarrow> ref \<Rightarrow> world \<times> event option" where
  "onPrivatizing w i =
     (case fsms w i of
        None \<Rightarrow> (w, None)
      | Some f \<Rightarrow> (await i Protect_cb (act (Protector_protect (conn f)) w), None))"

text \<open>The handlers the constructor registers (index.js, lines 111-132). \<open>_onDisconnected\<close>
  only logs. \<open>_onAborted\<close> and \<open>_onErrored\<close> are methods of \<open>src/connection/base.js\<close>, which
  is not among the sources; the spec gives the two states no entry action.\<close>

definition on_enter :: "world \<Rightarrow> ref \<Rightarrow> conn_state \<Rightarrow> world \<times> event option" where
  "on_enter w i s =
     (case s of
        DISCONNECTED \<Rightarrow> (w, None)
      | DIALING \<Rightarrow> onDialing w i
      | DIALED \<Rightarrow> (act (Emit ''connected'') w, None)
      | PRIVATIZING \<Rightarrow> onPrivatizing w i
      | PRIVATIZED \<Rightarrow> (act (Emit ''private'') w, None)
      | ENCRYPTING \<Rightarrow> onEncrypting w i
      | ENCRYPTED \<Rightarrow> (act (Emit ''encrypted'') w, None)
      | UPGRADING \<Rightarrow> onUpgrading w i
      | MUXED \<Rightarrow> (act (Emit ''muxed'') w, None)
      | CONNECTED \<Rightarrow> (act (Emit ''unmuxed'') w, None)
      | DISCONNECTING \<Rightarrow> onDisconnecting w i
      | ABORTED \<Rightarrow> (w, None)
      | ERRORED \<Rightarrow> (w, None))"

text \<open>The rank of a state bounds how many handlers can still run in one call of
  \<open>_state\<close>: \<open>DIALING\<close> may end in \<open>disconnect\<close>, whose handler ends in \<open>done\<close>.\<close>

definition rank :: "conn_state \<Rightarrow> nat" where
  "rank s = (case s of DISCONNECTING \<Rightarrow> 0 | DIALING \<Rightarrow> 1 | UPGRADING \<Rightarrow> 1 | _ \<Rightarrow> 2)"

definition rank_of :: "world \<Rightarrow> ref \<Rightarrow> nat" where
  "rank_of w i = (case fsms w i of None \<Rightarrow> 0 | Some f \<Rightarrow> rank (state f))"

lemma fsms_act [simp]: "fsms (act a w) = fsms w"
  by (simp add: act_def)

lemma trace_act [simp]: "trace (act a w) = trace w @ [a]"
  by (simp add: act_def)

lemma getState_act [simp]: "getState (act a w) i = getState w i"
  by (simp add: getState_def)

lemma fsms_upd_fsm: "fsms (upd_fsm i g w) j =
    (if j = i then map_option g (fsms w i) else fsms w j)"
  by (simp add: upd_fsm_def split: option.splits)

lemma fsms_multiaddrs_add [simp]: "fsms (multiaddrs_add p a w) = fsms w"
  by (simp add: multiaddrs_add_def)

lemma rank_of_act [simp]: "rank_of (act a w) i = rank_of w i"
  by (simp add: rank_of_def)

lemma rank_of_multiaddrs_add [simp]: "rank_of (multiaddrs_add p a w) i = rank_of w i"
  by (simp add: rank_of_def)

lemma rank_of_upd_fsm:
  "(\<And>f. state (g f) = state f) \<Longrightarrow> rank_of (upd_fsm j g w) i = rank_of w i"
  by (simp add: rank_of_def fsms_upd_fsm split: option.splits)

lemma rank_of_await [simp]: "rank_of (await j c w) i = rank_of w i"
  by (simp add: await_def rank_of_upd_fsm)

lemma rank_of_resume [simp]: "rank_of (resume j c w) i = rank_of w i"
  by (simp add: resume_def rank_of_upd_fsm)

lemma rank_of_tables [simp]:
  "rank_of (w\<lparr>muxedConns := m\<rparr>) i = rank_of w i"
  "rank_of (w\<lparr>conns := c\<rparr>) i = rank_of w i"
  by (simp_all add: rank_of_def)

lemma rank_of_set_state:
  "fsms w i = Some f \<Longrightarrow> rank_of (upd_fsm i (\<lambda>g. g\<lparr>state := s\<rparr>) w) i = rank s"
  by (simp add: rank_of_def fsms_upd_fsm)

lemma on_enter_tail:
  assumes "on_enter w i s = (w', Some e)"
  shows "rank_of w' i = rank_of w i \<and> s \<in> {DIALING, UPGRADING, DISCONNECTING}"
  using assms
  by (cases s)
     (auto simp: on_enter_def onDialing_def nextTransport_def transport_dial_def
        onDisconnecting_def onEncrypting_def onUpgrading_def onPrivatizing_def
        cleanup_def disconnect_peers_def Let_def rank_of_upd_fsm
        split: option.splits if_splits prod.splits)

lemma rank_decreases:
  assumes "next_state conn_table s0 e = Some s" and "s \<in> {DIALING, UPGRADING, DISCONNECTING}"
  shows "rank s < rank s0"
  using assms
  by (cases s0; cases e) (auto simp: next_state_def conn_table_def rank_def)


subsection \<open>Triggering an event\<close>

text \<open>
  \<open>this._state(ev)\<close> on a \<open>ConnectionFSM\<close>. An event the table does not have for the
  current state goes to the \<open>error\<close> listener of the state machine, \<open>_onStateError\<close>
  (index.js, lines 133 and 464-467), which logs it. Otherwise the state is stored and
  the handler of the new state runs.
\<close>

function state_emit :: "world \<Rightarrow> ref \<Rightarrow> event \<Rightarrow> world" where
  "state_emit w i ev =
     (case fsms w i of
        None \<Rightarrow> w
      | Some f \<Rightarrow>
          (case next_state conn_table (state f) ev of
             None \<Rightarrow> act (Log_state_error (Invalid_transition (state f) ev)) w
           | Some s \<Rightarrow>
               (case on_enter (upd_fsm i (\<lambda>g. g\<lparr>state := s\<rparr>) w) i s of
                  (w', None) \<Rightarrow> w'
                | (w', Some ev') \<Rightarrow> state_emit w' i ev')))"
  by pat_completeness auto
termination
proof (relation "measure (\<lambda>(w, i, ev). rank_of w i)")
  show "wf (measure (\<lambda>(w, i, ev). rank_of w i))"
    by simp
next
  fix w i ev f s w' o' ev'
  assume f: "fsms w i = Some f"
    and s: "next_state conn_table (state f) ev = Some s"
    and p: "(w', o') = on_enter (upd_fsm i (state_update (\<lambda>_. s)) w) i s"
    and o: "o' = Some ev'"
  from p o have e: "on_enter (upd_fsm i (state_update (\<lambda>_. s)) w) i s = (w', Some ev')"
    by simp
  from on_enter_tail [OF e] rank_of_set_state [OF f]
  have "rank_of w' i = rank s" and "s \<in> {DIALING, UPGRADING, DISCONNECTING}"
    by simp_all
  moreover from f have "rank_of w i = rank (state f)"
    by (simp add: rank_of_def)
  ultimately show "((w', i, ev'), (w, i, ev)) \<in> measure (\<lambda>(w, i, ev). rank_of w i)"
    using rank_decreases [OF s] by simp
qed

declare state_emit.simps [simp del]

text \<open>A handler's last call of \<open>_state\<close>.\<close>

definition finish :: "ref \<Rightarrow> world \<times> event option \<Rightarrow> world" where
  "finish i r = (case r of (w, None) \<Rightarrow> w | (w, Some ev) \<Rightarrow> state_emit w i ev)"

text \<open>The constructor (index.js, lines 42-134): a new object in the store, in state
  \<open>DISCONNECTED\<close>. \<open>ourPeerInfo\<close> is set by the constructor of \<open>BaseConnection\<close> from the
  switch's own \<open>PeerInfo\<close>, as \<open>IncomingConnectionFSM\<close> does in handler.js, line 18.\<close>

definition new_ConnectionFSM :: "world \<Rightarrow> ref \<Rightarrow> b58 \<Rightarrow> ref option \<Rightarrow> world" where
  "new_ConnectionFSM w i peer m =
     w\<lparr>fsms := (fsms w)(i \<mapsto>
        \<lparr>theirPeerInfo = Some peer, theirB58Id = peer, ourPeerInfo = Some (our_id w),
         conn = None, muxer = m, state = DISCONNECTED, waiting = []\<rparr>)\<rparr>"

text \<open>\<open>dial()\<close> (index.js, lines 151-157).\<close>

definition dial :: "world \<Rightarrow> ref \<Rightarrow> world" where
  "dial w i =
     (case fsms w i of
        None \<Rightarrow> w
      | Some f \<Rightarrow>
          (case ourPeerInfo f of
             None \<Rightarrow> act (Throw Type_error) w
           | Some our \<Rightarrow>
               if theirB58Id f = our then act (Emit_error DIAL_SELF) w
               else state_emit w i Ev_dial))"

text \<open>\<open>upgrade()\<close> (index.js, lines 192-194).\<close>

definition upgrade :: "world \<Rightarrow> ref \<Rightarrow> world" where
  "upgrade w i = state_emit w i Ev_upgrade"

text \<open>\<open>shake(protocol, callback)\<close> (index.js, lines 166-185). The callback is named by a
  number; \<open>Callback c err result\<close> is its call.\<close>

definition shake :: "world \<Rightarrow> ref \<Rightarrow> string option \<Rightarrow> nat \<Rightarrow> world" where
  "shake w i protocol callback =
     (case fsms w i of
        None \<Rightarrow> w
      | Some f \<Rightarrow>
          if falsy protocol then act (Callback callback None None) w
          else
            (case protocol of
               None \<Rightarrow> w
             | Some p \<Rightarrow>
                 (case muxer f of
                    Some m \<Rightarrow> await i (New_stream_cb p callback) (act (Muxer_new_stream m) w)
                  | None \<Rightarrow>
                      (case conn f of
                         None \<Rightarrow> act (Throw Type_error) w
                       | Some c \<Rightarrow>
                           await i (Handshake_handle_cb p callback)
                             (act (Ms_handle (Some c))
                                (act (Set_peer_info c (theirPeerInfo f)) w))))))"


subsection \<open>Callbacks of the outbound FSM\<close>

text \<open>
  A callback runs when its operation completes: it is given the closure that waits and
  the result, an error or a connection. A closure that does not wait on the FSM is not
  called.
\<close>

text \<open>The callback of \<open>transport.dial\<close> (index.js, lines 240-248).\<close>

definition transport_dial_cb :: "world \<Rightarrow> ref \<Rightarrow> closure \<Rightarrow> err + conn \<Rightarrow> world" where
  "transport_dial_cb w i c res =
     (case c of
        Dial_cb transport tKeys circuitTried circuitEnabled \<Rightarrow>
          (case fsms w i of
             None \<Rightarrow> w
           | Some f \<Rightarrow>
               if c \<notin> set (waiting f) then w
               else
                 (case res of
                    Inl e \<Rightarrow>
                      (let (key, rest) = shift tKeys
                       in finish i
                            (nextTransport (resume i c w) i rest circuitTried circuitEnabled key))
                  | Inr conn' \<Rightarrow>
                      state_emit
                        (upd_fsm i
                           (\<lambda>g. g\<lparr>conn := Some (Observed (Some transport) None conn')\<rparr>)
                           (resume i c w))
                        i Ev_done))
      | _ \<Rightarrow> w)"

text \<open>\<open>_didUpgrade(err)\<close> (index.js, lines 415-425).\<close>

definition didUpgrade :: "world \<Rightarrow> ref \<Rightarrow> err option \<Rightarrow> world" where
  "didUpgrade w i e =
     (case fsms w i of
        None \<Rightarrow> w
      | Some f \<Rightarrow>
          (case e of
             Some x \<Rightarrow>
               (let w1 = act (Log_upgrade_error x) w
                in state_emit (w1\<lparr>conns := (conns w1)(theirB58Id f \<mapsto> i)\<rparr>) i Ev_stop)
           | None \<Rightarrow> state_emit w i Ev_done))"

text \<open>\<open>nextMuxer(key)\<close> (index.js, lines 370-372), up to the call of
  \<open>msDialer.select\<close>.\<close>

definition nextMuxer :: "world \<Rightarrow> ref \<Rightarrow> string list \<Rightarrow> string option \<Rightarrow> world" where
  "nextMuxer w i ms key = await i (Upgrade_select_cb key ms) (act (Ms_select key) w)"

text \<open>The callback of \<open>msDialer.handle\<close> in \<open>_onUpgrading\<close> (index.js, lines 361-405).\<close>

definition upgrade_handle_cb :: "world \<Rightarrow> ref \<Rightarrow> closure \<Rightarrow> err option \<Rightarrow> world" where
  "upgrade_handle_cb w i c e =
     (case c of
        Upgrade_handle_cb ms \<Rightarrow>
          (case fsms w i of
             None \<Rightarrow> w
           | Some f \<Rightarrow>
               if c \<notin> set (waiting f) then w
               else
                 (case e of
                    Some x \<Rightarrow> didUpgrade (resume i c w) i (Some x)
                  | None \<Rightarrow>
                      (let (key, rest) = shift ms in nextMuxer (resume i c w) i rest key)))
      | _ \<Rightarrow> w)"

text \<open>The success branch of the callback of \<open>msDialer.select\<close> before it calls
  \<open>_didUpgrade(null)\<close> (index.js, lines 381-398): the muxer is created and stored, the FSM
  is stored in \<open>muxedConns\<close>, and the listeners are installed.\<close>

definition install_muxer :: "world \<Rightarrow> ref \<Rightarrow> string \<Rightarrow> conn \<Rightarrow> world" where
  "install_muxer w i key conn' =
     (case fsms w i of
        None \<Rightarrow> w
      | Some f \<Rightarrow>
          (let c = Observed None (Some key) conn';
               m = next_muxer w;
               w1 = (act (Muxer_dialer key c) w)\<lparr>next_muxer := Suc m\<rparr>;
               w2 = upd_fsm i (\<lambda>g. g\<lparr>muxer := Some m\<rparr>) w1;
               w3 = w2\<lparr>muxedConns := (muxedConns w2)(theirB58Id f \<mapsto> i)\<rparr>;
               w4 = w3\<lparr>muxer_close := (muxer_close w3)
                      (m := muxer_close w3 m @ [Close_disconnect i])\<rparr>
           in act (Switch_emit_later ''peer-mux-established'' (theirPeerInfo f)) w4))"

text \<open>The callback of \<open>msDialer.select\<close> (index.js, lines 372-401).\<close>

definition upgrade_select_cb :: "world \<Rightarrow> ref \<Rightarrow> closure \<Rightarrow> err + conn \<Rightarrow> world" where
  "upgrade_select_cb w i c res =
     (case c of
        Upgrade_select_cb key ms \<Rightarrow>
          (case fsms w i of
             None \<Rightarrow> w
           | Some f \<Rightarrow>
               if c \<notin> set (waiting f) then w
               else
                 (case res of
                    Inl x \<Rightarrow>
                      if length ms = 0 then didUpgrade (resume i c w) i (Some x)
                      else (let (k, rest) = shift ms in nextMuxer (resume i c w) i rest k)
                  | Inr conn' \<Rightarrow>
                      (case key of
                         None \<Rightarrow> act (Throw Type_error) (resume i c w)
                       | Some k \<Rightarrow>
                           didUpgrade (install_muxer (resume i c w) i k conn') i None)))
      | _ \<Rightarrow> w)"

text \<open>Modelled from the spec: the methods \<open>protect()\<close> and \<open>encrypt()\<close> of
  \<open>src/connection/base.js\<close>, which is not among the sources and which the listener of
  handler.js calls (lines 150-154): the driver triggers \<open>privatize\<close> and \<open>encrypt\<close>.\<close>

definition protect :: "world \<Rightarrow> ref \<Rightarrow> world" where
  "protect w i = state_emit w i Ev_privatize"

definition encrypt :: "world \<Rightarrow> ref \<Rightarrow> world" where
  "encrypt w i = state_emit w i Ev_encrypt"

text \<open>Modelled from the spec: the \<open>abort\<close> transition that the dial scheduler, which is
  not among the sources, sends to an FSM in flight when it is aborted.\<close>

definition abort_fsm :: "world \<Rightarrow> ref \<Rightarrow> world" where
  "abort_fsm w i = state_emit w i Ev_abort"

text \<open>Modelled from the spec: the \<open>disconnect\<close> that the owner of an FSM triggers from
  outside, as the dial scheduler does on an FSM that completes after an abort.\<close>

definition disconnect :: "world \<Rightarrow> ref \<Rightarrow> world" where
  "disconnect w i = state_emit w i Ev_disconnect"

text \<open>Modelled from the spec: the callback of \<open>protector.protect\<close> in \<open>_onPrivatizing\<close> of
  \<open>src/connection/base.js\<close>: the protected connection replaces \<open>conn\<close>; on completion
  trigger \<open>done\<close>, on failure trigger \<open>disconnect\<close>.\<close>

definition protect_cb :: "world \<Rightarrow> ref \<Rightarrow> closure \<Rightarrow> err + conn \<Rightarrow> world" where
  "protect_cb w i c res =
     (case c of
        Protect_cb \<Rightarrow>
          (case fsms w i of
             None \<Rightarrow> w
           | Some f \<Rightarrow>
               if c \<notin> set (waiting f) then w
               else
                 (case res of
                    Inl e \<Rightarrow> state_emit (resume i c w) i Ev_disconnect
                  | Inr conn' \<Rightarrow>
                      state_emit (upd_fsm i (\<lambda>g. g\<lparr>conn := Some conn'\<rparr>) (resume i c w))
                        i Ev_done))
      | _ \<Rightarrow> w)"

text \<open>The three callbacks of \<open>_onEncrypting\<close> (index.js, lines 315-341): of
  \<open>msDialer.handle\<close>, of \<open>msDialer.select\<close> and of \<open>crypto.encrypt\<close>.\<close>

definition encrypt_handle_cb :: "world \<Rightarrow> ref \<Rightarrow> closure \<Rightarrow> err option \<Rightarrow> world" where
  "encrypt_handle_cb w i c e =
     (case c of
        Encrypt_handle_cb \<Rightarrow>
          (case fsms w i of
             None \<Rightarrow> w
           | Some f \<Rightarrow>
               if c \<notin> set (waiting f) then w
               else
                 (case e of
                    Some x \<Rightarrow>
                      state_emit (act (Emit_error (maybeUnexpectedEnd x)) (resume i c w))
                        i Ev_disconnect
                  | None \<Rightarrow>
                      await i Encrypt_select_cb
                        (act (Ms_select (Some (crypto_tag w))) (resume i c w))))
      | _ \<Rightarrow> w)"

definition encrypt_select_cb :: "world \<Rightarrow> ref \<Rightarrow> closure \<Rightarrow> err + conn \<Rightarrow> world" where
  "encrypt_select_cb w i c res =
     (case c of
        Encrypt_select_cb \<Rightarrow>
          (case fsms w i of
             None \<Rightarrow> w
           | Some f \<Rightarrow>
               if c \<notin> set (waiting f) then w
               else
                 (case res of
                    Inl x \<Rightarrow>
                      state_emit (act (Emit_error (maybeUnexpectedEnd x)) (resume i c w))
                        i Ev_disconnect
                  | Inr conn' \<Rightarrow>
                      (case (ourPeerInfo f, theirPeerInfo f) of
                         (Some our, Some their) \<Rightarrow>
                           (let observed = Observed None (Some (crypto_tag w)) conn'
                            in await i Encrypt_crypto_cb
                                 (act (Crypto_encrypt observed)
                                    (upd_fsm i
                                       (\<lambda>g. g\<lparr>conn := Some (Encrypted observed)\<rparr>)
                                       (resume i c w))))
                       | _ \<Rightarrow> act (Throw Type_error) (resume i c w))))
      | _ \<Rightarrow> w)"

definition encrypt_crypto_cb :: "world \<Rightarrow> ref \<Rightarrow> closure \<Rightarrow> err option \<Rightarrow> world" where
  "encrypt_crypto_cb w i c e =
     (case c of
        Encrypt_crypto_cb \<Rightarrow>
          (case fsms w i of
             None \<Rightarrow> w
           | Some f \<Rightarrow>
               if c \<notin> set (waiting f) then w
               else
                 (case e of
                    Some x \<Rightarrow> state_emit (act (Emit_error x) (resume i c w)) i Ev_disconnect
                  | None \<Rightarrow>
                      (case conn f of
                         None \<Rightarrow> act (Throw Type_error) (resume i c w)
                       | Some cn \<Rightarrow>
                           state_emit
                             (act (Set_peer_info cn (theirPeerInfo f)) (resume i c w))
                             i Ev_done)))
      | _ \<Rightarrow> w)"

text \<open>The callbacks of \<open>shake\<close>: of \<open>muxer.newStream\<close> (index.js, lines 173-180) and of
  \<open>msDialer.handle\<close> and \<open>msDialer.select\<close> in \<open>_protocolHandshake\<close> (lines 438-456).\<close>

definition new_stream_cb :: "world \<Rightarrow> ref \<Rightarrow> closure \<Rightarrow> err + conn \<Rightarrow> world" where
  "new_stream_cb w i c res =
     (case c of
        New_stream_cb protocol callback \<Rightarrow>
          (case fsms w i of
             None \<Rightarrow> w
           | Some f \<Rightarrow>
               if c \<notin> set (waiting f) then w
               else
                 (case res of
                    Inl e \<Rightarrow> act (Callback callback (Some e) None) (resume i c w)
                  | Inr stream \<Rightarrow>
                      await i (Handshake_handle_cb protocol callback)
                        (act (Ms_handle (Some stream)) (resume i c w))))
      | _ \<Rightarrow> w)"

definition handshake_handle_cb :: "world \<Rightarrow> ref \<Rightarrow> closure \<Rightarrow> err option \<Rightarrow> world" where
  "handshake_handle_cb w i c e =
     (case c of
        Handshake_handle_cb protocol callback \<Rightarrow>
          (case fsms w i of
             None \<Rightarrow> w
           | Some f \<Rightarrow>
               if c \<notin> set (waiting f) then w
               else
                 (case e of
                    Some x \<Rightarrow> act (Callback callback (Some x) None) (resume i c w)
                  | None \<Rightarrow>
                      await i (Handshake_select_cb protocol callback)
                        (act (Ms_select (Some protocol)) (resume i c w))))
      | _ \<Rightarrow> w)"

definition handshake_select_cb :: "world \<Rightarrow> ref \<Rightarrow> closure \<Rightarrow> err + conn \<Rightarrow> world" where
  "handshake_select_cb w i c res =
     (case c of
        Handshake_select_cb protocol callback \<Rightarrow>
          (case fsms w i of
             None \<Rightarrow> w
           | Some f \<Rightarrow>
               if c \<notin> set (waiting f) then w
               else
                 (case res of
                    Inl x \<Rightarrow> act (Callback callback (Some x) None) (resume i c w)
                  | Inr conn' \<Rightarrow>
                      act (Callback callback None (Some (Observed None (Some protocol) conn')))
                        (resume i c w)))
      | _ \<Rightarrow> w)"

text \<open>The outside answers the operations an FSM waits for, the oldest first, one
  answer each.\<close>

definition deliver :: "world \<Rightarrow> ref \<Rightarrow> closure \<Rightarrow> err + conn \<Rightarrow> world" where
  "deliver w i c res =
     (case c of
        Dial_cb t ks ct ce \<Rightarrow> transport_dial_cb w i c res
      | Upgrade_handle_cb ms \<Rightarrow>
          upgrade_handle_cb w i c (case res of Inl e \<Rightarrow> Some e | Inr x \<Rightarrow> None)
      | Upgrade_select_cb k ms \<Rightarrow> upgrade_select_cb w i c res
      | _ \<Rightarrow> w)"

fun answers :: "world \<Rightarrow> ref \<Rightarrow> (err + conn) list \<Rightarrow> world" where
  "answers w i [] = w"
| "answers w i (r # rs) =
     (case fsms w i of
        None \<Rightarrow> w
      | Some f \<Rightarrow>
          (case waiting f of
             [] \<Rightarrow> w
           | c # cs \<Rightarrow> answers (deliver w i c r) i rs))"

subsection \<open>Hanging up\<close>

text \<open>The argument of \<open>hangUp\<close>: a \<open>PeerInfo\<close> or a \<open>PeerId\<close>, each named by the base58
  string of the id. (The third documented kind, a \<open>Multiaddr\<close>, is not modelled.)\<close>

datatype peer = Peer_info b58 | Peer_id b58

text \<open>Modelled from the spec: \<open>getPeerInfo(peer, peerBook)\<close> of \<open>src/get-peer-info.js\<close>,
  which is not among the sources: it gives the \<open>PeerInfo\<close> of a peer. A \<open>PeerInfo\<close> is
  returned as it is; a \<open>PeerId\<close> is looked up in the peer book. The book is \<open>None\<close> when
  the argument is \<open>undefined\<close>: reading a property of \<open>undefined\<close> throws a \<open>TypeError\<close>.\<close>

definition getPeerInfo :: "peer \<Rightarrow> (b58 \<Rightarrow> bool) option \<Rightarrow> err + b58" where
  "getPeerInfo p peerBook =
     (case p of
        Peer_info key \<Rightarrow> Inr key
      | Peer_id key \<Rightarrow>
          (case peerBook of
             None \<Rightarrow> Inl Type_error
           | Some has \<Rightarrow> if has key then Inr key else Inl Type_error))"

text \<open>\<open>hangUp(peer, callback)\<close> (src/index.js, lines 167-180). It passes \<open>this.peerBook\<close>
  to \<open>getPeerInfo\<close>, a property that is never assigned: the constructor stores the peer
  book as \<open>this._peerBook\<close> (line 27). The callback is named by a number.\<close>

definition hangUp :: "world \<Rightarrow> peer \<Rightarrow> nat \<Rightarrow> world" where
  "hangUp w p callback =
     (case getPeerInfo p None of
        Inl e \<Rightarrow> act (Throw e) w
      | Inr key \<Rightarrow>
          (case muxedConns w key of
             Some i \<Rightarrow>
               (case fsms w i of
                  None \<Rightarrow> act (Throw Type_error) w
                | Some f \<Rightarrow>
                    (case muxer f of
                       None \<Rightarrow> act (Throw Type_error) w
                     | Some m \<Rightarrow>
                         act (Muxer_end m)
                           (w\<lparr>muxer_close := (muxer_close w)
                                (m := muxer_close w m @ [Close_hangUp key callback])\<rparr>)))
           | None \<Rightarrow> act (HangUp_callback callback (muxedConns w key)) w))"

text \<open>The two listeners on a muxer's \<open>close\<close> (index.js, lines 387-389, and
  src/index.js, lines 172-175). The listener of \<open>hangUp\<close> deletes the entry, then calls
  the callback.\<close>

definition run_close_listener :: "world \<Rightarrow> close_listener \<Rightarrow> world" where
  "run_close_listener w l =
     (case l of
        Close_disconnect i \<Rightarrow> state_emit w i Ev_disconnect
      | Close_hangUp key callback \<Rightarrow>
          (let w1 = w\<lparr>muxedConns := (muxedConns w)(key := None)\<rparr>
           in act (HangUp_callback callback (muxedConns w1 key)) w1))"

text \<open>A muxer emits \<open>close\<close>: its listeners, registered with \<open>once\<close>, run in the order
  they were registered.\<close>

definition muxer_emit_close :: "world \<Rightarrow> ref \<Rightarrow> world" where
  "muxer_emit_close w m =
     foldl run_close_listener
       ((act (Muxer_closed m) w)\<lparr>muxer_close := (muxer_close w)(m := [])\<rparr>)
       (muxer_close w m)"

section \<open>The inbound connection\<close>






subsection \<open>The listener that drives the inbound connection\<close>




















section \<open>The lifecycle of the switch\<close>

text \<open>\<open>Switch.state\<close> with its handlers (src/index.js, lines 93-109): \<open>STARTING\<close> runs
  \<open>_onStarting\<close> and \<open>STOPPING\<close> runs \<open>_onStopping\<close>, which work asynchronously and end in
  \<open>done\<close>; \<open>STARTED\<close> emits \<open>started\<close>, \<open>STOPPED\<close> emits \<open>stopped\<close>, and the \<open>error\<close> of the
  state machine is emitted as the switch's \<open>error\<close>.\<close>

datatype switch_action =
  Run_onStarting
  | Run_onStopping
  | Switch_emit string
  | Switch_emit_error switch_state event

definition switch_emit :: "switch_state \<Rightarrow> event \<Rightarrow> switch_state \<times> switch_action list" where
  "switch_emit s ev =
     (case next_state switch_table s ev of
        None \<Rightarrow> (s, [Switch_emit_error s ev])
      | Some t \<Rightarrow>
          (t, [case t of
                 STARTING \<Rightarrow> Run_onStarting
               | STOPPING \<Rightarrow> Run_onStopping
               | STARTED \<Rightarrow> Switch_emit ''started''
               | STOPPED \<Rightarrow> Switch_emit ''stopped'']))"

text \<open>\<open>start\<close> and \<open>stop\<close> (src/index.js, lines 199-218).\<close>

definition start :: "switch_state \<Rightarrow> switch_state \<times> switch_action list" where
  "start s = switch_emit s Ev_start"

definition stop :: "switch_state \<Rightarrow> switch_state \<times> switch_action list" where
  "stop s = switch_emit s Ev_stop"


section \<open>The transition graphs of the design\<close>






section \<open>Properties\<close>

text \<open>A switch with a direct transport and the circuit transport, one muxer, and no
  connection yet; the examples below start from it.\<close>

definition world0 :: world where
  "world0 =
     \<lparr>our_id = ''QmLocal'', transports = [''tcp'', ''Circuit''],
      muxers = [''/mplex/6.7.0''], crypto_tag = ''/plaintext/1.0.0'',
      availableTransports = (\<lambda>addrs. [''tcp'']),
      conns = Map.empty, muxedConns = Map.empty, fsms = Map.empty,
      muxer_close = (\<lambda>m. []), next_muxer = 0, multiaddrs = (\<lambda>p. []), trace = []\<rparr>"

subsection \<open>The lifecycle of the switch\<close>

text \<open>
  C4, as the spec states it, says that \<open>stop\<close> while \<open>STARTING\<close> is not defined by the
  graph and produces a state-transition error. The table has the entry
  \<open>STARTING: { stop: 'STOPPING' }\<close>: the switch moves to \<open>STOPPING\<close> and runs \<open>_onStopping\<close>.
\<close>

theorem C4_stop_while_starting_is_defined:
  "stop STARTING = (STOPPING, [Run_onStopping])
   \<and> stop STARTING \<noteq> (STARTING, [Switch_emit_error STARTING Ev_stop])"
  by (simp add: stop_def switch_emit_def next_state_def switch_table_def)

text \<open>
  C4, amended: \<open>start\<close> while \<open>STARTED\<close> takes the table's entry \<open>start: 'STARTED'\<close>: the
  state stays \<open>STARTED\<close>, \<open>_onStarting\<close> does not run and no error is produced (the handler
  of \<open>STARTED\<close> emits \<open>started\<close> again). \<open>start\<close> while \<open>STOPPING\<close> is not in the table: the
  state stays \<open>STOPPING\<close> and the state-transition error is emitted. \<open>stop\<close> while
  \<open>STARTING\<close> is in the table and moves the switch to \<open>STOPPING\<close>.
\<close>

theorem C4_switch_lifecycle:
  "start STARTED = (STARTED, [Switch_emit ''started''])
   \<and> start STOPPING = (STOPPING, [Switch_emit_error STOPPING Ev_start])
   \<and> stop STARTING = (STOPPING, [Run_onStopping])"
  by (simp add: start_def stop_def switch_emit_def next_state_def switch_table_def)

subsection \<open>Dialling oneself\<close>

text \<open>
  C9: when \<open>dial()\<close> is called on an FSM whose remote peer id is the id of the switch's
  own \<open>PeerInfo\<close>, the FSM emits the \<open>DIAL_SELF\<close> error and nothing else happens: no
  object changes, so the FSM stays in the state it is in, which for a new FSM is
  \<open>DISCONNECTED\<close>.
\<close>

theorem C9_dial_self:
  assumes "fsms w i = Some f"
    and "ourPeerInfo f = Some (our_id w)"
    and "theirB58Id f = our_id w"
  shows "dial w i = act (Emit_error DIAL_SELF) w
    \<and> trace (dial w i) = trace w @ [Emit_error DIAL_SELF]
    \<and> getState (dial w i) i = Some (state f)
    \<and> (\<forall>m. getState (dial (new_ConnectionFSM w i (our_id w) m) i) i = Some DISCONNECTED)"
  using assms by (simp add: dial_def getState_def act_def new_ConnectionFSM_def)

theorem C9_dial_self_witness:
  "dial (new_ConnectionFSM world0 0 ''QmLocal'' None) 0
     = act (Emit_error DIAL_SELF) (new_ConnectionFSM world0 0 ''QmLocal'' None)
   \<and> trace (dial (new_ConnectionFSM world0 0 ''QmLocal'' None) 0) = [Emit_error DIAL_SELF]
   \<and> getState (dial (new_ConnectionFSM world0 0 ''QmLocal'' None) 0) 0 = Some DISCONNECTED"
proof -
  let ?w = "new_ConnectionFSM world0 0 ''QmLocal'' None"
  let ?f = "\<lparr>theirPeerInfo = Some ''QmLocal'', theirB58Id = ''QmLocal'',
        ourPeerInfo = Some ''QmLocal'', conn = None, muxer = None,
        state = DISCONNECTED, waiting = []\<rparr>"
  have f: "fsms ?w 0 = Some ?f"
    by (simp add: new_ConnectionFSM_def world0_def)
  have our: "ourPeerInfo ?f = Some (our_id ?w)" and their: "theirB58Id ?f = our_id ?w"
    by (simp_all add: new_ConnectionFSM_def world0_def)
  have t: "trace ?w = []"
    by (simp add: new_ConnectionFSM_def world0_def)
  have s: "getState ?w 0 = Some DISCONNECTED"
    by (simp add: getState_def f)
  from C9_dial_self [OF f our their] t s show ?thesis
    by simp
qed

subsection \<open>The handshake without a protocol\<close>

text \<open>
  C10: \<open>shake(protocol, callback)\<close> with a protocol that is \<open>null\<close> or absent (or the
  empty string) calls \<open>callback(null, null)\<close> at once and does nothing else: no stream is
  opened on the muxer, no negotiation starts, no callback is left waiting, and the FSM
  with its state and its connection, like every other object, is as before.
\<close>

theorem C10_shake_without_protocol:
  assumes "fsms w i = Some f"
    and "falsy protocol"
  shows "shake w i protocol callback = act (Callback callback None None) w
    \<and> trace (shake w i protocol callback) = trace w @ [Callback callback None None]
    \<and> fsms (shake w i protocol callback) = fsms w
    \<and> getState (shake w i protocol callback) i = Some (state f)
    \<and> map_option conn (fsms (shake w i protocol callback) i) = Some (conn f)"
  using assms by (simp add: shake_def getState_def act_def)

theorem C10_shake_without_protocol_witness:
  "falsy None
   \<and> shake (new_ConnectionFSM world0 0 ''QmRemote'' None) 0 None 7
     = act (Callback 7 None None) (new_ConnectionFSM world0 0 ''QmRemote'' None)
   \<and> trace (shake (new_ConnectionFSM world0 0 ''QmRemote'' None) 0 None 7)
     = [Callback 7 None None]
   \<and> getState (shake (new_ConnectionFSM world0 0 ''QmRemote'' None) 0 None 7) 0
     = Some DISCONNECTED"
proof -
  let ?w = "new_ConnectionFSM world0 0 ''QmRemote'' None"
  let ?f = "\<lparr>theirPeerInfo = Some ''QmRemote'', theirB58Id = ''QmRemote'',
        ourPeerInfo = Some ''QmLocal'', conn = None, muxer = None,
        state = DISCONNECTED, waiting = []\<rparr>"
  have f: "fsms ?w 0 = Some ?f"
    by (simp add: new_ConnectionFSM_def world0_def)
  have n: "falsy None"
    by (simp add: falsy_def)
  have t: "trace ?w = []"
    by (simp add: new_ConnectionFSM_def world0_def)
  have s: "getState ?w 0 = Some DISCONNECTED"
    by (simp add: getState_def f)
  from C10_shake_without_protocol [OF f n, of 7] t n s show ?thesis
    by simp
qed


subsection \<open>Disconnecting\<close>

lemma state_emit_to_disconnecting:
  assumes f: "fsms w i = Some f"
    and n: "next_state conn_table (state f) ev = Some DISCONNECTING"
  shows "state_emit w i ev =
    upd_fsm i (\<lambda>g. g\<lparr>state := DISCONNECTED\<rparr>)
      (fst (onDisconnecting (upd_fsm i (\<lambda>g. g\<lparr>state := DISCONNECTING\<rparr>) w) i))"
proof -
  let ?w1 = "upd_fsm i (\<lambda>g. g\<lparr>state := DISCONNECTING\<rparr>) w"
  obtain w2 where d: "onDisconnecting ?w1 i = (w2, Some Ev_done)"
    using f by (simp add: onDisconnecting_def fsms_upd_fsm)
  have s2: "map_option state (fsms w2 i) = Some DISCONNECTING"
    using d f
    by (auto simp: onDisconnecting_def cleanup_def disconnect_peers_def Let_def
        fsms_upd_fsm split: option.splits)
  then obtain f2 where f2: "fsms w2 i = Some f2" and st: "state f2 = DISCONNECTING"
    by auto
  have "state_emit w i ev = state_emit w2 i Ev_done"
    using f n d by (subst state_emit.simps) (simp add: on_enter_def)
  also have "\<dots> = upd_fsm i (\<lambda>g. g\<lparr>state := DISCONNECTED\<rparr>) w2"
    using f2 st
    by (subst state_emit.simps)
       (simp add: next_state_def conn_table_def on_enter_def)
  finally show ?thesis
    using d by simp
qed




text \<open>A switch holding one muxed outbound connection to \<open>QmRemote\<close>.\<close>

definition fsm_muxed :: conn_fsm where
  "fsm_muxed =
     \<lparr>theirPeerInfo = Some ''QmRemote'', theirB58Id = ''QmRemote'',
      ourPeerInfo = Some ''QmLocal'', conn = Some (Encrypted (Raw_conn 0)),
      muxer = Some 0, state = MUXED, waiting = []\<rparr>"

definition world_muxed :: world where
  "world_muxed =
     world0\<lparr>fsms := [0 \<mapsto> fsm_muxed], muxedConns := [''QmRemote'' \<mapsto> 0],
       muxer_close := (\<lambda>m. if m = 0 then [Close_disconnect 0] else []), next_muxer := 1\<rparr>"

lemma tables_upd_fsm [simp]:
  "muxedConns (upd_fsm i g w) = muxedConns w"
  "conns (upd_fsm i g w) = conns w"
  "trace (upd_fsm i g w) = trace w"
  by (simp_all add: upd_fsm_def split: option.splits)




lemma multiaddrs_act [simp]: "multiaddrs (act a w) = multiaddrs w"
  by (simp add: act_def)

lemma tables_act [simp]:
  "muxedConns (act a w) = muxedConns w"
  "conns (act a w) = conns w"
  "muxer_close (act a w) = muxer_close w"
  by (simp_all add: act_def)

lemma multiaddrs_upd_fsm [simp]: "multiaddrs (upd_fsm i g w) = multiaddrs w"
  by (simp add: upd_fsm_def split: option.splits)

lemma await_simps [simp]:
  "trace (await i c w) = trace w"
  "multiaddrs (await i c w) = multiaddrs w"
  "muxedConns (await i c w) = muxedConns w"
  "conns (await i c w) = conns w"
  by (simp_all add: await_def)

lemma resume_simps [simp]:
  "trace (resume i c w) = trace w"
  "multiaddrs (resume i c w) = multiaddrs w"
  "muxedConns (resume i c w) = muxedConns w"
  "conns (resume i c w) = conns w"
  by (simp_all add: resume_def)

lemma fsms_await: "fsms (await i c w) j =
    (if j = i then map_option (\<lambda>f. f\<lparr>waiting := waiting f @ [c]\<rparr>) (fsms w i) else fsms w j)"
  by (simp add: await_def fsms_upd_fsm)

lemma fsms_resume: "fsms (resume i c w) j =
    (if j = i then map_option (\<lambda>f. f\<lparr>waiting := remove1 c (waiting f)\<rparr>) (fsms w i)
     else fsms w j)"
  by (simp add: resume_def fsms_upd_fsm)

lemma multiaddrs_add_simps [simp]:
  "trace (multiaddrs_add p a w) = trace w @ [Multiaddrs_add p a]"
  "multiaddrs (multiaddrs_add p a w) q =
     (if q = p then (if a \<in> set (multiaddrs w p) then multiaddrs w p else multiaddrs w p @ [a])
      else multiaddrs w q)"
  by (simp_all add: multiaddrs_add_def act_def)

text \<open>What entering \<open>DISCONNECTING\<close> does to an outbound FSM.\<close>

lemma disconnecting_effect:
  assumes f: "fsms w i = Some f"
    and n: "next_state conn_table (state f) ev = Some DISCONNECTING"
  shows "trace (state_emit w i ev) = trace w
        @ (case theirPeerInfo f of None \<Rightarrow> [] | Some p \<Rightarrow> [Peer_disconnect p])
        @ (case ourPeerInfo f of None \<Rightarrow> [] | Some q \<Rightarrow> [Peer_disconnect q])
        @ (case muxer f of None \<Rightarrow> []
           | Some m \<Rightarrow> [Switch_emit_later ''peer-mux-closed'' (theirPeerInfo f)])"
    and "getState (state_emit w i ev) i = Some DISCONNECTED"
    and "multiaddrs (state_emit w i ev) = multiaddrs w"
    and "muxedConns (state_emit w i ev) = (muxedConns w)(theirB58Id f := None)"
    and "conns (state_emit w i ev) = (conns w)(theirB58Id f := None)"
proof -
  let ?w1 = "upd_fsm i (\<lambda>g. g\<lparr>state := DISCONNECTING\<rparr>) w"
  have f1: "fsms ?w1 i = Some (f\<lparr>state := DISCONNECTING\<rparr>)"
    using f by (simp add: fsms_upd_fsm)
  note e = state_emit_to_disconnecting [OF f n]
  show "trace (state_emit w i ev) = trace w
        @ (case theirPeerInfo f of None \<Rightarrow> [] | Some p \<Rightarrow> [Peer_disconnect p])
        @ (case ourPeerInfo f of None \<Rightarrow> [] | Some q \<Rightarrow> [Peer_disconnect q])
        @ (case muxer f of None \<Rightarrow> []
           | Some m \<Rightarrow> [Switch_emit_later ''peer-mux-closed'' (theirPeerInfo f)])"
    unfolding e using f1
    by (simp add: onDisconnecting_def cleanup_def disconnect_peers_def Let_def
        split: option.splits)
  show "getState (state_emit w i ev) i = Some DISCONNECTED"
    unfolding e using f1 f
    by (auto simp: onDisconnecting_def cleanup_def disconnect_peers_def Let_def
        getState_def fsms_upd_fsm split: option.splits)
  show "multiaddrs (state_emit w i ev) = multiaddrs w"
    unfolding e using f1
    by (simp add: onDisconnecting_def cleanup_def disconnect_peers_def Let_def
        split: option.splits)
  show "muxedConns (state_emit w i ev) = (muxedConns w)(theirB58Id f := None)"
    unfolding e using f1
    by (simp add: onDisconnecting_def cleanup_def disconnect_peers_def Let_def
        split: option.splits)
  show "conns (state_emit w i ev) = (conns w)(theirB58Id f := None)"
    unfolding e using f1
    by (simp add: onDisconnecting_def cleanup_def disconnect_peers_def Let_def
        split: option.splits)
qed

text \<open>The last dial fails: the circuit has been tried.\<close>

lemma last_dial_fails:
  assumes f: "fsms w i = Some f"
    and wt: "waiting f = [Dial_cb t [] True True]"
    and st: "state f = DIALING"
    and p: "theirPeerInfo f = Some p" "theirB58Id f = p"
    and q: "ourPeerInfo f = Some q"
  shows "trace (answers w i [Inl e]) = trace w
        @ [Emit_error (No_available_transports p), Peer_disconnect p, Peer_disconnect q]
        @ (case muxer f of None \<Rightarrow> []
           | Some m \<Rightarrow> [Switch_emit_later ''peer-mux-closed'' (Some p)])"
    and "getState (answers w i [Inl e]) i = Some DISCONNECTED"
    and "multiaddrs (answers w i [Inl e]) = multiaddrs w"
proof -
  let ?c = "Dial_cb t [] True True"
  let ?w1 = "act (Emit_error (No_available_transports p)) (resume i ?c w)"
  have f1: "fsms ?w1 i = Some (f\<lparr>waiting := []\<rparr>)"
    using f wt by (simp add: fsms_resume)
  have n: "next_state conn_table (state (f\<lparr>waiting := []\<rparr>)) Ev_disconnect = Some DISCONNECTING"
    using st by (simp add: next_state_def conn_table_def)
  have a: "answers w i [Inl e] = state_emit ?w1 i Ev_disconnect"
    using f wt p
    by (simp add: deliver_def transport_dial_cb_def shift_def nextTransport_def falsy_def
        finish_def fsms_resume)
  show "trace (answers w i [Inl e]) = trace w
        @ [Emit_error (No_available_transports p), Peer_disconnect p, Peer_disconnect q]
        @ (case muxer f of None \<Rightarrow> []
           | Some m \<Rightarrow> [Switch_emit_later ''peer-mux-closed'' (Some p)])"
    unfolding a disconnecting_effect(1) [OF f1 n] using p q
    by (simp split: option.split)
  show "getState (answers w i [Inl e]) i = Some DISCONNECTED"
    unfolding a by (rule disconnecting_effect(2) [OF f1 n])
  show "multiaddrs (answers w i [Inl e]) = multiaddrs w"
    unfolding a disconnecting_effect(3) [OF f1 n] by simp
qed


text \<open>A dial fails while keys are left: the next key is dialled.\<close>

lemma dial_fails_next:
  assumes f: "fsms w i = Some f"
    and wt: "waiting f = [Dial_cb t (k # ks) ct ce]"
    and k: "k \<noteq> []"
  shows "answers w i (Inl e # rs) =
    answers (await i (Dial_cb k ks ct ce)
      (act (Transport_dial k (theirB58Id f)) (resume i (Dial_cb t (k # ks) ct ce) w))) i rs"
  using f wt k
  by (simp add: deliver_def transport_dial_cb_def shift_def nextTransport_def falsy_def
      finish_def fsms_resume transport_dial_def)

text \<open>A dial fails when the list is exhausted and the circuit is registered and has not
  been tried: the address is added and the circuit is dialled.\<close>

lemma dial_fails_fallback:
  assumes f: "fsms w i = Some f"
    and wt: "waiting f = [Dial_cb t [] False True]"
    and p: "theirPeerInfo f = Some p" "theirB58Id f = p"
  shows "answers w i (Inl e # rs) =
    answers (await i (Dial_cb Circuit_tag [] True True)
      (act (Transport_dial Circuit_tag p)
        (multiaddrs_add p (circuit_addr p)
          (act Log_fallback (resume i (Dial_cb t [] False True) w))))) i rs"
  using f wt p
  by (simp add: deliver_def transport_dial_cb_def shift_def nextTransport_def falsy_def
      finish_def fsms_resume transport_dial_def)

definition dial_failure_tail :: "b58 \<Rightarrow> b58 \<Rightarrow> ref option \<Rightarrow> action list" where
  "dial_failure_tail p q m =
     [Log_fallback, Multiaddrs_add p (circuit_addr p), Transport_dial Circuit_tag p,
      Emit_error (No_available_transports p), Peer_disconnect p, Peer_disconnect q]
     @ (case m of None \<Rightarrow> [] | Some x \<Rightarrow> [Switch_emit_later ''peer-mux-closed'' (Some p)])"

lemma dial_loop:
  assumes "fsms w i = Some f"
    and "waiting f = [Dial_cb t ks False True]"
    and "state f = DIALING"
    and "theirPeerInfo f = Some p" and "theirB58Id f = p"
    and "ourPeerInfo f = Some q"
    and "[] \<notin> set ks"
    and "length es = length ks + 2"
  shows "trace (answers w i (map Inl es)) = trace w
        @ map (\<lambda>k. Transport_dial k p) ks @ dial_failure_tail p q (muxer f)
    \<and> getState (answers w i (map Inl es)) i = Some DISCONNECTED
    \<and> multiaddrs (answers w i (map Inl es)) p =
        (if circuit_addr p \<in> set (multiaddrs w p) then multiaddrs w p
         else multiaddrs w p @ [circuit_addr p])"
  using assms
proof (induction ks arbitrary: w f t es)
  case Nil
  then obtain e1 e2 where es: "es = [e1, e2]"
    by (cases es; cases "tl es") auto
  let ?c = "Dial_cb t [] False True"
  let ?w1 = "await i (Dial_cb Circuit_tag [] True True)
      (act (Transport_dial Circuit_tag p)
        (multiaddrs_add p (circuit_addr p) (act Log_fallback (resume i ?c w))))"
  let ?f1 = "f\<lparr>waiting := [Dial_cb Circuit_tag [] True True]\<rparr>"
  have a: "answers w i (map Inl es) = answers ?w1 i [Inl e2]"
    using dial_fails_fallback [OF Nil.prems(1,2,4,5)] es by simp
  have f1: "fsms ?w1 i = Some ?f1"
    using Nil.prems(1,2) by (simp add: fsms_await fsms_resume)
  have x: "waiting ?f1 = [Dial_cb Circuit_tag [] True True]" "state ?f1 = DIALING"
      "theirPeerInfo ?f1 = Some p" "theirB58Id ?f1 = p" "ourPeerInfo ?f1 = Some q"
    using Nil.prems by simp_all
  note l = last_dial_fails [OF f1 x, of e2]
  show ?case
    unfolding a using l by (simp add: dial_failure_tail_def)
next
  case (Cons k ks)
  then obtain e es' where es: "es = e # es'" and len: "length es' = length ks + 2"
    by (cases es) auto
  let ?c = "Dial_cb t (k # ks) False True"
  let ?w1 = "await i (Dial_cb k ks False True) (act (Transport_dial k p) (resume i ?c w))"
  let ?f1 = "f\<lparr>waiting := [Dial_cb k ks False True]\<rparr>"
  from Cons.prems have k: "k \<noteq> []" and ks: "[] \<notin> set ks"
    by auto
  have a: "answers w i (map Inl es) = answers ?w1 i (map Inl es')"
    using dial_fails_next [OF Cons.prems(1,2) k] es Cons.prems(5) by simp
  have f1: "fsms ?w1 i = Some ?f1"
    using Cons.prems(1,2) by (simp add: fsms_await fsms_resume)
  have "trace (answers ?w1 i (map Inl es')) = trace ?w1
        @ map (\<lambda>k. Transport_dial k p) ks @ dial_failure_tail p q (muxer ?f1)
    \<and> getState (answers ?w1 i (map Inl es')) i = Some DISCONNECTED
    \<and> multiaddrs (answers ?w1 i (map Inl es')) p =
        (if circuit_addr p \<in> set (multiaddrs ?w1 p) then multiaddrs ?w1 p
         else multiaddrs ?w1 p @ [circuit_addr p])"
    using Cons.prems by (intro Cons.IH [OF f1 _ _ _ _ _ ks len]) simp_all
  then show ?case
    unfolding a by simp
qed


lemma registry_simps [simp]:
  "transports (act a w) = transports w"
  "transports (upd_fsm i g w) = transports w"
  "muxers (act a w) = muxers w"
  "muxers (upd_fsm i g w) = muxers w"
  "availableTransports (act a w) = availableTransports w"
  "availableTransports (upd_fsm i g w) = availableTransports w"
  by (simp_all add: act_def upd_fsm_def split: option.splits)

lemma hasTransports_simps [simp]:
  "hasTransports (act a w) = hasTransports w"
  "hasTransports (upd_fsm i g w) = hasTransports w"
  by (simp_all add: hasTransports_def)

text \<open>\<open>dial()\<close> on a new FSM starts the first dial, or the fallback when no transport
  is available for the peer's addresses.\<close>

lemma dial_starts:
  assumes f: "fsms w i = Some f"
    and st: "state f = DISCONNECTED"
    and p: "theirPeerInfo f = Some p" "theirB58Id f = p"
    and q: "ourPeerInfo f = Some q" "p \<noteq> q"
    and h: "hasTransports w"
    and k: "availableTransports w (multiaddrs w p) = k # ks" "k \<noteq> []"
  shows "dial w i =
    await i (Dial_cb k ks False (Circuit_tag \<in> set (transports w)))
      (act (Transport_dial k p) (act (Log_dialing p)
        (upd_fsm i (\<lambda>g. g\<lparr>state := DIALING\<rparr>) w)))"
  using assms
  by (simp add: dial_def state_emit.simps [of w] next_state_def conn_table_def on_enter_def
      onDialing_def fsms_upd_fsm Let_def shift_def nextTransport_def falsy_def
      transport_dial_def)

lemma dial_starts_fallback:
  assumes f: "fsms w i = Some f"
    and st: "state f = DISCONNECTED"
    and p: "theirPeerInfo f = Some p" "theirB58Id f = p"
    and q: "ourPeerInfo f = Some q" "p \<noteq> q"
    and h: "hasTransports w"
    and c: "Circuit_tag \<in> set (transports w)"
    and k: "availableTransports w (multiaddrs w p) = []"
  shows "dial w i =
    await i (Dial_cb Circuit_tag [] True True)
      (act (Transport_dial Circuit_tag p)
        (multiaddrs_add p (circuit_addr p) (act Log_fallback (act (Log_dialing p)
          (upd_fsm i (\<lambda>g. g\<lparr>state := DIALING\<rparr>) w)))))"
  using assms
  by (simp add: dial_def state_emit.simps [of w] next_state_def conn_table_def on_enter_def
      onDialing_def fsms_upd_fsm Let_def shift_def nextTransport_def falsy_def
      transport_dial_def)

definition is_multiaddrs_add :: "action \<Rightarrow> bool" where
  "is_multiaddrs_add a = (case a of Multiaddrs_add p x \<Rightarrow> True | _ \<Rightarrow> False)"

lemma filter_multiaddrs_add_dials [simp]:
  "filter is_multiaddrs_add (map (\<lambda>k. Transport_dial k p) ks) = []"
  by (induction ks) (simp_all add: is_multiaddrs_add_def)

text \<open>
  C2: an outbound FSM is dialled on a switch that has a direct transport and the circuit
  transport, and every dial fails. The FSM dials the available transports in order; when
  the list is exhausted it adds \<open>/p2p-circuit/ipfs/<remoteB58>\<close> to the peer's addresses,
  once, and dials the circuit transport, once; when that dial fails too it emits the
  error "No available transports" and triggers \<open>disconnect\<close>, which ends in
  \<open>DISCONNECTED\<close>. (Transport keys are non-empty strings.)
\<close>

theorem C2_circuit_fallback:
  assumes f: "fsms w i = Some f"
    and st: "state f = DISCONNECTED" "waiting f = []"
    and p: "theirPeerInfo f = Some p" "theirB58Id f = p"
    and q: "ourPeerInfo f = Some q" "p \<noteq> q"
    and h: "hasTransports w"
    and c: "Circuit_tag \<in> set (transports w)"
    and k: "availableTransports w (multiaddrs w p) = tKeys" "[] \<notin> set tKeys"
    and len: "length es = length tKeys + 1"
  shows "trace (answers (dial w i) i (map Inl es)) = trace w
        @ [Log_dialing p] @ map (\<lambda>k. Transport_dial k p) tKeys
        @ [Log_fallback, Multiaddrs_add p (circuit_addr p), Transport_dial Circuit_tag p,
           Emit_error (No_available_transports p), Peer_disconnect p, Peer_disconnect q]
        @ (case muxer f of None \<Rightarrow> []
           | Some m \<Rightarrow> [Switch_emit_later ''peer-mux-closed'' (Some p)])
    \<and> getState (answers (dial w i) i (map Inl es)) i = Some DISCONNECTED
    \<and> multiaddrs (answers (dial w i) i (map Inl es)) p =
        (if circuit_addr p \<in> set (multiaddrs w p) then multiaddrs w p
         else multiaddrs w p @ [circuit_addr p])
    \<and> length (filter is_multiaddrs_add
        (drop (length (trace w)) (trace (answers (dial w i) i (map Inl es))))) = 1"
proof (cases tKeys)
  case Nil
  let ?w1 = "await i (Dial_cb Circuit_tag [] True True)
      (act (Transport_dial Circuit_tag p)
        (multiaddrs_add p (circuit_addr p) (act Log_fallback (act (Log_dialing p)
          (upd_fsm i (\<lambda>g. g\<lparr>state := DIALING\<rparr>) w)))))"
  let ?f1 = "f\<lparr>state := DIALING, waiting := [Dial_cb Circuit_tag [] True True]\<rparr>"
  from Nil len obtain e where es: "es = [e]"
    by (cases es) auto
  have d: "dial w i = ?w1"
    using dial_starts_fallback [OF f st(1) p q h c] k(1) Nil by simp
  have f1: "fsms ?w1 i = Some ?f1"
    using f st(2) by (simp add: fsms_await fsms_upd_fsm)
  have x: "waiting ?f1 = [Dial_cb Circuit_tag [] True True]" "state ?f1 = DIALING"
      "theirPeerInfo ?f1 = Some p" "theirB58Id ?f1 = p" "ourPeerInfo ?f1 = Some q"
    using p q by simp_all
  note l = last_dial_fails [OF f1 x, of e]
  show ?thesis
    unfolding d es using l Nil by (simp add: is_multiaddrs_add_def split: option.split)
next
  case (Cons k ks)
  let ?w1 = "await i (Dial_cb k ks False True)
      (act (Transport_dial k p) (act (Log_dialing p)
        (upd_fsm i (\<lambda>g. g\<lparr>state := DIALING\<rparr>) w)))"
  let ?f1 = "f\<lparr>state := DIALING, waiting := [Dial_cb k ks False True]\<rparr>"
  from Cons k(2) have kk: "k \<noteq> []" and ks: "[] \<notin> set ks"
    by auto
  have d: "dial w i = ?w1"
    using dial_starts [OF f st(1) p q h _ kk, of ks] k(1) Cons c by simp
  have f1: "fsms ?w1 i = Some ?f1"
    using f st(2) by (simp add: fsms_await fsms_upd_fsm)
  have x: "waiting ?f1 = [Dial_cb k ks False True]" "state ?f1 = DIALING"
      "theirPeerInfo ?f1 = Some p" "theirB58Id ?f1 = p" "ourPeerInfo ?f1 = Some q"
    using p q by simp_all
  have len': "length es = length ks + 2"
    using len Cons by simp
  note l = dial_loop [OF f1 x ks len']
  show ?thesis
    unfolding d using l Cons
    by (simp add: dial_failure_tail_def is_multiaddrs_add_def split: option.split)
qed

theorem C2_circuit_fallback_witness:
  "hasTransports (new_ConnectionFSM world0 0 ''QmRemote'' None)
   \<and> Circuit_tag \<in> set (transports (new_ConnectionFSM world0 0 ''QmRemote'' None))
   \<and> trace (answers (dial (new_ConnectionFSM world0 0 ''QmRemote'' None) 0) 0
        [Inl (Lower ''ECONNREFUSED''), Inl (Lower ''ECONNREFUSED'')])
     = [Log_dialing ''QmRemote'', Transport_dial ''tcp'' ''QmRemote'', Log_fallback,
        Multiaddrs_add ''QmRemote'' ''/p2p-circuit/ipfs/QmRemote'',
        Transport_dial ''Circuit'' ''QmRemote'',
        Emit_error (No_available_transports ''QmRemote''),
        Peer_disconnect ''QmRemote'', Peer_disconnect ''QmLocal'']
   \<and> getState (answers (dial (new_ConnectionFSM world0 0 ''QmRemote'' None) 0) 0
        [Inl (Lower ''ECONNREFUSED''), Inl (Lower ''ECONNREFUSED'')]) 0 = Some DISCONNECTED
   \<and> multiaddrs (answers (dial (new_ConnectionFSM world0 0 ''QmRemote'' None) 0) 0
        [Inl (Lower ''ECONNREFUSED''), Inl (Lower ''ECONNREFUSED'')]) ''QmRemote''
     = [''/p2p-circuit/ipfs/QmRemote'']"
proof -
  let ?w = "new_ConnectionFSM world0 0 ''QmRemote'' None"
  let ?f = "\<lparr>theirPeerInfo = Some ''QmRemote'', theirB58Id = ''QmRemote'',
        ourPeerInfo = Some ''QmLocal'', conn = None, muxer = None,
        state = DISCONNECTED, waiting = []\<rparr>"
  have f: "fsms ?w 0 = Some ?f"
    by (simp add: new_ConnectionFSM_def world0_def)
  have h: "hasTransports ?w" and c: "Circuit_tag \<in> set (transports ?w)"
    by (simp_all add: hasTransports_def new_ConnectionFSM_def world0_def Circuit_tag_def)
  have k: "availableTransports ?w (multiaddrs ?w ''QmRemote'') = [''tcp'']"
    by (simp add: new_ConnectionFSM_def world0_def)
  have t: "trace ?w = []" and a: "multiaddrs ?w ''QmRemote'' = []"
    by (simp_all add: new_ConnectionFSM_def world0_def)
  have st: "state ?f = DISCONNECTED" "waiting ?f = []"
    and p: "theirPeerInfo ?f = Some ''QmRemote''" "theirB58Id ?f = ''QmRemote''"
    and q: "ourPeerInfo ?f = Some ''QmLocal''" "''QmRemote'' \<noteq> ''QmLocal''"
    and ne: "[] \<notin> set [''tcp'']"
    and len: "length [Lower ''ECONNREFUSED'', Lower ''ECONNREFUSED''] = length [''tcp''] + 1"
    by simp_all
  from C2_circuit_fallback [OF f st p q h c k ne len] h c t a
  show ?thesis
    by (simp add: circuit_addr_def Circuit_tag_def)
qed




subsection \<open>Upgrading\<close>


lemma next_muxer_simps [simp]:
  "next_muxer (act a w) = next_muxer w"
  "next_muxer (upd_fsm i g w) = next_muxer w"
  "muxer_close (upd_fsm i g w) = muxer_close w"
  by (simp_all add: act_def upd_fsm_def split: option.splits)

lemma await_resume_more [simp]:
  "muxers (await i c w) = muxers w"
  "muxers (resume i c w) = muxers w"
  "next_muxer (await i c w) = next_muxer w"
  "next_muxer (resume i c w) = next_muxer w"
  "muxer_close (await i c w) = muxer_close w"
  "muxer_close (resume i c w) = muxer_close w"
  by (simp_all add: await_def resume_def)

text \<open>Leaving \<open>UPGRADING\<close>.\<close>

lemma state_emit_stop:
  assumes "fsms w i = Some f" and "state f = UPGRADING"
  shows "state_emit w i Ev_stop =
    act (Emit ''unmuxed'') (upd_fsm i (\<lambda>g. g\<lparr>state := CONNECTED\<rparr>) w)"
  using assms
  by (simp add: state_emit.simps [of w] next_state_def conn_table_def on_enter_def)

lemma state_emit_done:
  assumes "fsms w i = Some f" and "state f = UPGRADING"
  shows "state_emit w i Ev_done =
    act (Emit ''muxed'') (upd_fsm i (\<lambda>g. g\<lparr>state := MUXED\<rparr>) w)"
  using assms
  by (simp add: state_emit.simps [of w] next_state_def conn_table_def on_enter_def)

text \<open>\<open>_didUpgrade(err)\<close> in \<open>UPGRADING\<close>.\<close>

lemma didUpgrade_error:
  assumes "fsms w i = Some f" and "state f = UPGRADING"
  shows "didUpgrade w i (Some e) =
    act (Emit ''unmuxed'') (upd_fsm i (\<lambda>g. g\<lparr>state := CONNECTED\<rparr>)
      ((act (Log_upgrade_error e) w)\<lparr>conns := (conns w)(theirB58Id f \<mapsto> i)\<rparr>))"
proof -
  let ?w1 = "(act (Log_upgrade_error e) w)\<lparr>conns := (conns w)(theirB58Id f \<mapsto> i)\<rparr>"
  have "fsms ?w1 i = Some f"
    using assms(1) by simp
  from state_emit_stop [OF this assms(2)] assms(1) show ?thesis
    by (simp add: didUpgrade_def Let_def)
qed

lemma select_fails_next:
  assumes "fsms w i = Some f"
    and "waiting f = [Upgrade_select_cb key (k # ks)]"
  shows "answers w i (Inl e # rs) =
    answers (await i (Upgrade_select_cb (Some k) ks) (act (Ms_select (Some k))
      (resume i (Upgrade_select_cb key (k # ks)) w))) i rs"
  using assms
  by (simp add: deliver_def upgrade_select_cb_def shift_def nextMuxer_def)

lemma select_fails_last:
  assumes f: "fsms w i = Some f"
    and wt: "waiting f = [Upgrade_select_cb key []]"
    and st: "state f = UPGRADING"
  shows "answers w i [Inl e] =
    act (Emit ''unmuxed'') (upd_fsm i (\<lambda>g. g\<lparr>state := CONNECTED\<rparr>)
      ((act (Log_upgrade_error e) (resume i (Upgrade_select_cb key []) w))
         \<lparr>conns := (conns w)(theirB58Id f \<mapsto> i)\<rparr>))"
proof -
  let ?w1 = "resume i (Upgrade_select_cb key []) w"
  have f1: "fsms ?w1 i = Some (f\<lparr>waiting := []\<rparr>)"
    using f wt by (simp add: fsms_resume)
  have "answers w i [Inl e] = didUpgrade ?w1 i (Some e)"
    using f wt by (simp add: deliver_def upgrade_select_cb_def)
  with didUpgrade_error [OF f1, of e] st show ?thesis
    by simp
qed

text \<open>Every selection fails.\<close>

lemma select_loop_all_fail:
  assumes "fsms w i = Some f"
    and "waiting f = [Upgrade_select_cb key ks]"
    and "state f = UPGRADING"
    and "length es = length ks + 1"
  shows "trace (answers w i (map Inl es)) = trace w
        @ map (\<lambda>k. Ms_select (Some k)) ks @ [Log_upgrade_error (last es), Emit ''unmuxed'']
    \<and> conns (answers w i (map Inl es)) = (conns w)(theirB58Id f \<mapsto> i)
    \<and> muxedConns (answers w i (map Inl es)) = muxedConns w
    \<and> getState (answers w i (map Inl es)) i = Some CONNECTED"
  using assms
proof (induction ks arbitrary: w f key es)
  case Nil
  then obtain e where es: "es = [e]"
    by (cases es) auto
  show ?case
    unfolding es using select_fails_last [OF Nil.prems(1,2,3), of e] Nil.prems(1,2)
    by (simp add: getState_def fsms_upd_fsm fsms_resume)
next
  case (Cons k ks)
  then obtain e es' where es: "es = e # es'" and len: "length es' = length ks + 1"
    by (cases es) auto
  let ?w1 = "await i (Upgrade_select_cb (Some k) ks) (act (Ms_select (Some k))
      (resume i (Upgrade_select_cb key (k # ks)) w))"
  let ?f1 = "f\<lparr>waiting := [Upgrade_select_cb (Some k) ks]\<rparr>"
  have a: "answers w i (map Inl es) = answers ?w1 i (map Inl es')"
    using select_fails_next [OF Cons.prems(1,2)] es by simp
  have f1: "fsms ?w1 i = Some ?f1"
    using Cons.prems(1,2) by (simp add: fsms_await fsms_resume)
  have ne: "es' \<noteq> []"
    using len by auto
  have "trace (answers ?w1 i (map Inl es')) = trace ?w1
        @ map (\<lambda>k. Ms_select (Some k)) ks @ [Log_upgrade_error (last es'), Emit ''unmuxed'']
    \<and> conns (answers ?w1 i (map Inl es')) = (conns ?w1)(theirB58Id ?f1 \<mapsto> i)
    \<and> muxedConns (answers ?w1 i (map Inl es')) = muxedConns ?w1
    \<and> getState (answers ?w1 i (map Inl es')) i = Some CONNECTED"
    using Cons.prems by (intro Cons.IH [OF f1 _ _ len]) simp_all
  then show ?case
    unfolding a using es ne by simp
qed


text \<open>A selection succeeds.\<close>

lemma select_succeeds:
  assumes f: "fsms w i = Some f"
    and wt: "waiting f = [Upgrade_select_cb (Some k) ks]"
    and st: "state f = UPGRADING"
  shows "answers w i [Inr c] =
    act (Emit ''muxed'') (upd_fsm i (\<lambda>g. g\<lparr>state := MUXED\<rparr>)
      (install_muxer (resume i (Upgrade_select_cb (Some k) ks) w) i k c))"
proof -
  let ?w1 = "resume i (Upgrade_select_cb (Some k) ks) w"
  let ?w2 = "install_muxer ?w1 i k c"
  have f1: "fsms ?w1 i = Some (f\<lparr>waiting := []\<rparr>)"
    using f wt by (simp add: fsms_resume)
  have f2: "fsms ?w2 i = Some (f\<lparr>waiting := [], muxer := Some (next_muxer w)\<rparr>)"
    using f1 by (simp add: install_muxer_def Let_def fsms_upd_fsm)
  have "answers w i [Inr c] = didUpgrade ?w2 i None"
    using f wt by (simp add: deliver_def upgrade_select_cb_def)
  also have "\<dots> = state_emit ?w2 i Ev_done"
    using f2 by (simp add: didUpgrade_def)
  also have "\<dots> = act (Emit ''muxed'') (upd_fsm i (\<lambda>g. g\<lparr>state := MUXED\<rparr>) ?w2)"
    using state_emit_done [OF f2] st by simp
  finally show ?thesis .
qed

lemma select_succeeds_effect:
  assumes f: "fsms w i = Some f"
    and wt: "waiting f = [Upgrade_select_cb (Some k) ks]"
    and st: "state f = UPGRADING"
  shows "trace (answers w i [Inr c]) = trace w
        @ [Muxer_dialer k (Observed None (Some k) c),
           Switch_emit_later ''peer-mux-established'' (theirPeerInfo f), Emit ''muxed'']
    \<and> muxedConns (answers w i [Inr c]) = (muxedConns w)(theirB58Id f \<mapsto> i)
    \<and> conns (answers w i [Inr c]) = conns w
    \<and> getState (answers w i [Inr c]) i = Some MUXED"
proof -
  have f1: "fsms (resume i (Upgrade_select_cb (Some k) ks) w) i = Some (f\<lparr>waiting := []\<rparr>)"
    using f wt by (simp add: fsms_resume)
  show ?thesis
    unfolding select_succeeds [OF f wt st] using f1
    by (simp add: install_muxer_def Let_def getState_def fsms_upd_fsm)
qed

text \<open>Some selections fail, then one succeeds.\<close>

lemma select_loop_success:
  assumes "fsms w i = Some f"
    and "waiting f = [Upgrade_select_cb (Some k) ks]"
    and "state f = UPGRADING"
    and "length es \<le> length ks"
  shows "trace (answers w i (map Inl es @ [Inr c])) = trace w
        @ map (\<lambda>k. Ms_select (Some k)) (take (length es) ks)
        @ [Muxer_dialer ((k # ks) ! length es) (Observed None (Some ((k # ks) ! length es)) c),
           Switch_emit_later ''peer-mux-established'' (theirPeerInfo f), Emit ''muxed'']
    \<and> muxedConns (answers w i (map Inl es @ [Inr c])) = (muxedConns w)(theirB58Id f \<mapsto> i)
    \<and> conns (answers w i (map Inl es @ [Inr c])) = conns w
    \<and> getState (answers w i (map Inl es @ [Inr c])) i = Some MUXED"
  using assms
proof (induction es arbitrary: w f k ks)
  case Nil
  with select_succeeds_effect [OF Nil.prems(1,2,3), of c] show ?case
    by simp
next
  case (Cons e es)
  then obtain k' ks' where ks: "ks = k' # ks'" and len: "length es \<le> length ks'"
    by (cases ks) auto
  let ?w1 = "await i (Upgrade_select_cb (Some k') ks') (act (Ms_select (Some k'))
      (resume i (Upgrade_select_cb (Some k) (k' # ks')) w))"
  let ?f1 = "f\<lparr>waiting := [Upgrade_select_cb (Some k') ks']\<rparr>"
  have a: "answers w i (map Inl (e # es) @ [Inr c]) = answers ?w1 i (map Inl es @ [Inr c])"
    using select_fails_next [OF Cons.prems(1), of "Some k" k' ks'] Cons.prems(2) ks by simp
  have f1: "fsms ?w1 i = Some ?f1"
    using Cons.prems(1,2) ks by (simp add: fsms_await fsms_resume)
  have "trace (answers ?w1 i (map Inl es @ [Inr c])) = trace ?w1
        @ map (\<lambda>k. Ms_select (Some k)) (take (length es) ks')
        @ [Muxer_dialer ((k' # ks') ! length es)
             (Observed None (Some ((k' # ks') ! length es)) c),
           Switch_emit_later ''peer-mux-established'' (theirPeerInfo ?f1), Emit ''muxed'']
    \<and> muxedConns (answers ?w1 i (map Inl es @ [Inr c])) = (muxedConns ?w1)(theirB58Id ?f1 \<mapsto> i)
    \<and> conns (answers ?w1 i (map Inl es @ [Inr c])) = conns ?w1
    \<and> getState (answers ?w1 i (map Inl es @ [Inr c])) i = Some MUXED"
    using Cons.prems by (intro Cons.IH [OF f1 _ _ len]) simp_all
  then show ?case
    unfolding a using ks by simp
qed

text \<open>\<open>upgrade()\<close> on an encrypted connection, and the answer to \<open>msDialer.handle\<close>.\<close>

lemma upgrade_starts:
  assumes "fsms w i = Some f" and "state f = ENCRYPTED" and "muxers w \<noteq> []"
  shows "upgrade w i =
    await i (Upgrade_handle_cb (muxers w)) (act (Ms_handle (conn f))
      (upd_fsm i (\<lambda>g. g\<lparr>state := UPGRADING\<rparr>) w))"
  using assms
  by (simp add: upgrade_def state_emit.simps [of w] next_state_def conn_table_def on_enter_def
      onUpgrading_def fsms_upd_fsm)

lemma handle_succeeds:
  assumes "fsms w i = Some f" and "waiting f = [Upgrade_handle_cb (k # ks)]"
  shows "answers w i (Inr c # rs) =
    answers (await i (Upgrade_select_cb (Some k) ks) (act (Ms_select (Some k))
      (resume i (Upgrade_handle_cb (k # ks)) w))) i rs"
  using assms
  by (simp add: deliver_def upgrade_handle_cb_def shift_def nextMuxer_def)

lemma handle_fails:
  assumes f: "fsms w i = Some f"
    and wt: "waiting f = [Upgrade_handle_cb ms]"
    and st: "state f = UPGRADING"
  shows "answers w i [Inl e] =
    act (Emit ''unmuxed'') (upd_fsm i (\<lambda>g. g\<lparr>state := CONNECTED\<rparr>)
      ((act (Log_upgrade_error e) (resume i (Upgrade_handle_cb ms) w))
         \<lparr>conns := (conns w)(theirB58Id f \<mapsto> i)\<rparr>))"
proof -
  let ?w1 = "resume i (Upgrade_handle_cb ms) w"
  have f1: "fsms ?w1 i = Some (f\<lparr>waiting := []\<rparr>)"
    using f wt by (simp add: fsms_resume)
  have "answers w i [Inl e] = didUpgrade ?w1 i (Some e)"
    using f wt by (simp add: deliver_def upgrade_handle_cb_def)
  with didUpgrade_error [OF f1, of e] st show ?thesis
    by simp
qed


text \<open>A switch with two muxers holding an encrypted outbound connection to
  \<open>QmRemote\<close>.\<close>

definition fsm_encrypted :: conn_fsm where
  "fsm_encrypted =
     \<lparr>theirPeerInfo = Some ''QmRemote'', theirB58Id = ''QmRemote'',
      ourPeerInfo = Some ''QmLocal'', conn = Some (Encrypted (Raw_conn 0)),
      muxer = None, state = ENCRYPTED, waiting = []\<rparr>"

definition world_encrypted :: world where
  "world_encrypted =
     world0\<lparr>muxers := [''/mplex/6.7.0'', ''/spdy/3.1.0''], fsms := [0 \<mapsto> fsm_encrypted]\<rparr>"

text \<open>
  C3, as the spec states it, says that the FSM is stored in \<open>conns\<close> and \<open>stop\<close> is
  triggered only when every registered muxer has failed. When \<open>msDialer.handle\<close> fails,
  \<open>_onUpgrading\<close> calls \<open>_didUpgrade(err)\<close> at once: the FSM is stored in \<open>conns\<close> and
  reaches \<open>CONNECTED\<close>, and no registered muxer has been tried.
\<close>

theorem C3_stored_without_trying_a_muxer:
  "muxers world_encrypted = [''/mplex/6.7.0'', ''/spdy/3.1.0'']
   \<and> conns (answers (upgrade world_encrypted 0) 0 [Inl (Lower ''EPIPE'')]) ''QmRemote'' = Some 0
   \<and> getState (answers (upgrade world_encrypted 0) 0 [Inl (Lower ''EPIPE'')]) 0 = Some CONNECTED
   \<and> trace (answers (upgrade world_encrypted 0) 0 [Inl (Lower ''EPIPE'')])
     = [Ms_handle (Some (Encrypted (Raw_conn 0))), Log_upgrade_error (Lower ''EPIPE''),
        Emit ''unmuxed'']"
proof -
  let ?w1 = "await 0 (Upgrade_handle_cb (muxers world_encrypted))
      (act (Ms_handle (conn fsm_encrypted))
        (upd_fsm 0 (\<lambda>g. g\<lparr>state := UPGRADING\<rparr>) world_encrypted))"
  let ?f1 = "fsm_encrypted\<lparr>state := UPGRADING,
      waiting := [Upgrade_handle_cb (muxers world_encrypted)]\<rparr>"
  have f: "fsms world_encrypted 0 = Some fsm_encrypted"
    by (simp add: world_encrypted_def)
  have u: "upgrade world_encrypted 0 = ?w1"
    by (rule upgrade_starts [OF f]) (simp_all add: fsm_encrypted_def world_encrypted_def)
  have f1: "fsms ?w1 0 = Some ?f1"
    using f by (simp add: fsms_await fsms_upd_fsm fsm_encrypted_def)
  have h: "answers ?w1 0 [Inl (Lower ''EPIPE'')] =
    act (Emit ''unmuxed'') (upd_fsm 0 (\<lambda>g. g\<lparr>state := CONNECTED\<rparr>)
      ((act (Log_upgrade_error (Lower ''EPIPE''))
          (resume 0 (Upgrade_handle_cb (muxers world_encrypted)) ?w1))
         \<lparr>conns := (conns ?w1)(theirB58Id ?f1 \<mapsto> 0)\<rparr>))"
    by (rule handle_fails [OF f1]) simp_all
  show ?thesis
    unfolding u h using f
    by (simp add: getState_def fsms_upd_fsm fsms_resume fsms_await)
       (simp add: fsm_encrypted_def world_encrypted_def world0_def)
qed


text \<open>
  C3, amended. In the \<open>UPGRADING\<close> entry action of the outbound FSM the failure of one
  muxer selection is absorbed and the next registered key is tried, in insertion order;
  the first success stores the FSM in \<open>muxedConns\<close> and reaches \<open>MUXED\<close>. When every
  registered muxer has failed, or when the multistream handshake before the selection
  (\<open>msDialer.handle\<close>) fails so that no muxer is tried, the FSM is stored in
  \<open>conns[remoteB58]\<close> and \<open>stop\<close> is triggered, reaching \<open>CONNECTED\<close>; the error is logged
  and \<open>unmuxed\<close> is emitted, no \<open>error\<close> event.
\<close>

theorem C3_upgrading:
  assumes f: "fsms w i = Some f"
    and st: "state f = ENCRYPTED"
    and wt: "waiting f = []"
    and ms: "muxers w = k # ks"
  shows "(length es = length (k # ks) \<longrightarrow>
      trace (answers (upgrade w i) i (Inr c0 # map Inl es)) = trace w
        @ [Ms_handle (conn f)] @ map (\<lambda>k. Ms_select (Some k)) (k # ks)
        @ [Log_upgrade_error (last es), Emit ''unmuxed'']
      \<and> conns (answers (upgrade w i) i (Inr c0 # map Inl es)) = (conns w)(theirB58Id f \<mapsto> i)
      \<and> muxedConns (answers (upgrade w i) i (Inr c0 # map Inl es)) = muxedConns w
      \<and> getState (answers (upgrade w i) i (Inr c0 # map Inl es)) i = Some CONNECTED)
    \<and> (length es' < length (k # ks) \<longrightarrow>
      trace (answers (upgrade w i) i (Inr c0 # map Inl es' @ [Inr c])) = trace w
        @ [Ms_handle (conn f)]
        @ map (\<lambda>k. Ms_select (Some k)) (take (length es' + 1) (k # ks))
        @ [Muxer_dialer ((k # ks) ! length es')
             (Observed None (Some ((k # ks) ! length es')) c),
           Switch_emit_later ''peer-mux-established'' (theirPeerInfo f), Emit ''muxed'']
      \<and> muxedConns (answers (upgrade w i) i (Inr c0 # map Inl es' @ [Inr c]))
          = (muxedConns w)(theirB58Id f \<mapsto> i)
      \<and> conns (answers (upgrade w i) i (Inr c0 # map Inl es' @ [Inr c])) = conns w
      \<and> getState (answers (upgrade w i) i (Inr c0 # map Inl es' @ [Inr c])) i = Some MUXED)
    \<and> trace (answers (upgrade w i) i [Inl e]) = trace w
        @ [Ms_handle (conn f), Log_upgrade_error e, Emit ''unmuxed'']
    \<and> conns (answers (upgrade w i) i [Inl e]) = (conns w)(theirB58Id f \<mapsto> i)
    \<and> muxedConns (answers (upgrade w i) i [Inl e]) = muxedConns w
    \<and> getState (answers (upgrade w i) i [Inl e]) i = Some CONNECTED"
proof -
  let ?w1 = "await i (Upgrade_handle_cb (k # ks)) (act (Ms_handle (conn f))
      (upd_fsm i (\<lambda>g. g\<lparr>state := UPGRADING\<rparr>) w))"
  let ?f1 = "f\<lparr>state := UPGRADING, waiting := [Upgrade_handle_cb (k # ks)]\<rparr>"
  let ?w2 = "await i (Upgrade_select_cb (Some k) ks) (act (Ms_select (Some k))
      (resume i (Upgrade_handle_cb (k # ks)) ?w1))"
  let ?f2 = "f\<lparr>state := UPGRADING, waiting := [Upgrade_select_cb (Some k) ks]\<rparr>"
  have u: "upgrade w i = ?w1"
    using upgrade_starts [OF f st] ms by simp
  have f1: "fsms ?w1 i = Some ?f1"
    using f wt by (simp add: fsms_await fsms_upd_fsm)
  have h: "\<And>rs. answers ?w1 i (Inr c0 # rs) = answers ?w2 i rs"
    by (rule handle_succeeds [OF f1]) simp
  have f2: "fsms ?w2 i = Some ?f2"
    using f wt by (simp add: fsms_await fsms_resume fsms_upd_fsm)
  have t2: "trace ?w2 = trace w @ [Ms_handle (conn f), Ms_select (Some k)]"
    and c2: "conns ?w2 = conns w" and m2: "muxedConns ?w2 = muxedConns w"
    by simp_all
  have all_fail: "trace (answers ?w2 i (map Inl es)) = trace w
        @ [Ms_handle (conn f)] @ map (\<lambda>k. Ms_select (Some k)) (k # ks)
        @ [Log_upgrade_error (last es), Emit ''unmuxed'']
      \<and> conns (answers ?w2 i (map Inl es)) = (conns w)(theirB58Id f \<mapsto> i)
      \<and> muxedConns (answers ?w2 i (map Inl es)) = muxedConns w
      \<and> getState (answers ?w2 i (map Inl es)) i = Some CONNECTED"
    if "length es = length (k # ks)"
    using select_loop_all_fail [OF f2, of "Some k" ks es] that t2 c2 m2 by simp
  have success: "trace (answers ?w2 i (map Inl es' @ [Inr c])) = trace w
        @ [Ms_handle (conn f)]
        @ map (\<lambda>k. Ms_select (Some k)) (take (length es' + 1) (k # ks))
        @ [Muxer_dialer ((k # ks) ! length es')
             (Observed None (Some ((k # ks) ! length es')) c),
           Switch_emit_later ''peer-mux-established'' (theirPeerInfo f), Emit ''muxed'']
      \<and> muxedConns (answers ?w2 i (map Inl es' @ [Inr c])) = (muxedConns w)(theirB58Id f \<mapsto> i)
      \<and> conns (answers ?w2 i (map Inl es' @ [Inr c])) = conns w
      \<and> getState (answers ?w2 i (map Inl es' @ [Inr c])) i = Some MUXED"
    if "length es' < length (k # ks)"
    using select_loop_success [OF f2, of k ks es' c] that t2 c2 m2 by simp
  have hf: "answers ?w1 i [Inl e] =
    act (Emit ''unmuxed'') (upd_fsm i (\<lambda>g. g\<lparr>state := CONNECTED\<rparr>)
      ((act (Log_upgrade_error e) (resume i (Upgrade_handle_cb (k # ks)) ?w1))
         \<lparr>conns := (conns ?w1)(theirB58Id ?f1 \<mapsto> i)\<rparr>))"
    by (rule handle_fails [OF f1]) simp_all
  have handle_fail: "trace (answers ?w1 i [Inl e]) = trace w
        @ [Ms_handle (conn f), Log_upgrade_error e, Emit ''unmuxed'']
      \<and> conns (answers ?w1 i [Inl e]) = (conns w)(theirB58Id f \<mapsto> i)
      \<and> muxedConns (answers ?w1 i [Inl e]) = muxedConns w
      \<and> getState (answers ?w1 i [Inl e]) i = Some CONNECTED"
    unfolding hf using f wt
    by (simp add: getState_def fsms_upd_fsm fsms_resume fsms_await)
  show ?thesis
    unfolding u using all_fail success handle_fail h by simp
qed


theorem C3_upgrading_witness:
  "trace (answers (upgrade world_encrypted 0) 0
       [Inr (Raw_conn 1), Inl (Lower ''na''), Inl (Lower ''na'')])
     = [Ms_handle (Some (Encrypted (Raw_conn 0))), Ms_select (Some ''/mplex/6.7.0''),
        Ms_select (Some ''/spdy/3.1.0''), Log_upgrade_error (Lower ''na''), Emit ''unmuxed'']
   \<and> conns (answers (upgrade world_encrypted 0) 0
       [Inr (Raw_conn 1), Inl (Lower ''na''), Inl (Lower ''na'')]) ''QmRemote'' = Some 0
   \<and> getState (answers (upgrade world_encrypted 0) 0
       [Inr (Raw_conn 1), Inl (Lower ''na''), Inl (Lower ''na'')]) 0 = Some CONNECTED
   \<and> trace (answers (upgrade world_encrypted 0) 0
       [Inr (Raw_conn 1), Inl (Lower ''na''), Inr (Raw_conn 2)])
     = [Ms_handle (Some (Encrypted (Raw_conn 0))), Ms_select (Some ''/mplex/6.7.0''),
        Ms_select (Some ''/spdy/3.1.0''),
        Muxer_dialer ''/spdy/3.1.0'' (Observed None (Some ''/spdy/3.1.0'') (Raw_conn 2)),
        Switch_emit_later ''peer-mux-established'' (Some ''QmRemote''), Emit ''muxed'']
   \<and> muxedConns (answers (upgrade world_encrypted 0) 0
       [Inr (Raw_conn 1), Inl (Lower ''na''), Inr (Raw_conn 2)]) ''QmRemote'' = Some 0
   \<and> getState (answers (upgrade world_encrypted 0) 0
       [Inr (Raw_conn 1), Inl (Lower ''na''), Inr (Raw_conn 2)]) 0 = Some MUXED"
proof -
  have f: "fsms world_encrypted 0 = Some fsm_encrypted"
    by (simp add: world_encrypted_def)
  have st: "state fsm_encrypted = ENCRYPTED" and wt: "waiting fsm_encrypted = []"
    by (simp_all add: fsm_encrypted_def)
  have ms: "muxers world_encrypted = ''/mplex/6.7.0'' # [''/spdy/3.1.0'']"
    by (simp add: world_encrypted_def)
  have x: "trace world_encrypted = []" "conn fsm_encrypted = Some (Encrypted (Raw_conn 0))"
      "theirB58Id fsm_encrypted = ''QmRemote''" "theirPeerInfo fsm_encrypted = Some ''QmRemote''"
    by (simp_all add: world_encrypted_def world0_def fsm_encrypted_def)
  from C3_upgrading [OF f st wt ms, of "[Lower ''na'', Lower ''na'']" "Raw_conn 1"
      "[Lower ''na'']" "Raw_conn 2" "Lower ''na''"] x
  show ?thesis
    by simp
qed





subsection \<open>Hanging up\<close>

lemma on_enter_trace:
  "set (trace w) \<subseteq> set (trace (fst (on_enter w i s)))"
  by (cases s)
     (auto simp: on_enter_def onDialing_def nextTransport_def transport_dial_def
        onDisconnecting_def onEncrypting_def onUpgrading_def onPrivatizing_def
        cleanup_def disconnect_peers_def Let_def
        split: option.splits if_splits prod.splits)

lemma state_emit_trace:
  "set (trace w) \<subseteq> set (trace (state_emit w i ev))"
proof (induction w i ev rule: state_emit.induct)
  case (1 w i ev)
  show ?case
  proof (cases "fsms w i")
    case None
    then show ?thesis by (simp add: state_emit.simps [of w])
  next
    case (Some f)
    show ?thesis
    proof (cases "next_state conn_table (state f) ev")
      case None
      with Some show ?thesis by (auto simp: state_emit.simps [of w])
    next
      case s: (Some s)
      let ?w1 = "upd_fsm i (\<lambda>g. g\<lparr>state := s\<rparr>) w"
      obtain w' o' where e: "on_enter ?w1 i s = (w', o')"
        by (cases "on_enter ?w1 i s")
      have m: "set (trace w) \<subseteq> set (trace w')"
        using on_enter_trace [of ?w1 i s] e by simp
      show ?thesis
      proof (cases o')
        case None
        with Some s e m show ?thesis by (simp add: state_emit.simps [of w])
      next
        case (Some ev')
        from "1.IH" [OF \<open>fsms w i = Some f\<close> s e [symmetric] Some]
        have "set (trace w') \<subseteq> set (trace (state_emit w' i ev'))" .
        with \<open>fsms w i = Some f\<close> s e Some m show ?thesis
          by (auto simp: state_emit.simps [of w])
      qed
    qed
  qed
qed

lemma run_close_listener_trace:
  "set (trace w) \<subseteq> set (trace (run_close_listener w l))"
  using state_emit_trace by (cases l) (auto simp: run_close_listener_def)

lemma run_close_listeners_trace:
  "set (trace w) \<subseteq> set (trace (foldl run_close_listener w ls))"
proof (induction ls arbitrary: w)
  case Nil
  show ?case by simp
next
  case (Cons l ls)
  from run_close_listener_trace [of w l] Cons [of "run_close_listener w l"]
  show ?case by auto
qed

text \<open>
  C6: \<open>hangUp(P, callback)\<close>. Called with a \<open>PeerId\<close>, \<open>hangUp\<close> throws a \<open>TypeError\<close> in its
  first line, whatever \<open>muxedConns\<close> holds: \<open>getPeerInfo\<close> is given \<open>this.peerBook\<close>, which
  is undefined. The callback is not called, at once or later: nothing else happens, no
  muxer is ended and no listener is registered. Called with a \<open>PeerInfo\<close> of \<open>P\<close>: when no
  muxed connection to \<open>P\<close> is stored, the callback is called at once and finds
  \<open>muxedConns[P]\<close> absent. When one is stored, \<open>hangUp\<close> ends its muxer and registers a
  listener for the muxer's \<open>close\<close>; it does not call the callback. When the muxer emits
  \<open>close\<close>, the listener removes \<open>muxedConns[P]\<close> and then calls the callback: the
  callback runs after \<open>close\<close> has fired and finds \<open>muxedConns[P]\<close> absent.
\<close>

theorem C6_hangUp:
  "hangUp w (Peer_id key) callback = act (Throw Type_error) w
   \<and> trace (hangUp w (Peer_id key) callback) = trace w @ [Throw Type_error]
   \<and> muxer_close (hangUp w (Peer_id key) callback) = muxer_close w
   \<and> muxedConns (hangUp w (Peer_id key) callback) = muxedConns w
   \<and> (muxedConns w key = None \<longrightarrow>
      hangUp w (Peer_info key) callback = act (HangUp_callback callback None) w
      \<and> muxedConns (hangUp w (Peer_info key) callback) key = None)
   \<and> (muxedConns w key = Some i \<and> fsms w i = Some f \<and> muxer f = Some m \<longrightarrow>
      trace (hangUp w (Peer_info key) callback) = trace w @ [Muxer_end m]
      \<and> muxer_close (hangUp w (Peer_info key) callback) m
        = muxer_close w m @ [Close_hangUp key callback]
      \<and> muxedConns (hangUp w (Peer_info key) callback) = muxedConns w)
   \<and> (muxer_close v m = ls @ Close_hangUp key callback # ls' \<longrightarrow>
      (\<exists>v1. muxer_emit_close v m
            = foldl run_close_listener (act (HangUp_callback callback None) v1) ls'
        \<and> Muxer_closed m \<in> set (trace v1)
        \<and> muxedConns v1 key = None
        \<and> muxedConns (act (HangUp_callback callback None) v1) key = None))"
proof (intro conjI impI)
  show "hangUp w (Peer_id key) callback = act (Throw Type_error) w"
    and "trace (hangUp w (Peer_id key) callback) = trace w @ [Throw Type_error]"
    and "muxer_close (hangUp w (Peer_id key) callback) = muxer_close w"
    and "muxedConns (hangUp w (Peer_id key) callback) = muxedConns w"
    by (simp_all add: hangUp_def getPeerInfo_def)
next
  assume "muxedConns w key = None"
  then show "hangUp w (Peer_info key) callback = act (HangUp_callback callback None) w"
    and "muxedConns (hangUp w (Peer_info key) callback) key = None"
    by (simp_all add: hangUp_def getPeerInfo_def)
next
  assume a: "muxedConns w key = Some i \<and> fsms w i = Some f \<and> muxer f = Some m"
  then show "trace (hangUp w (Peer_info key) callback) = trace w @ [Muxer_end m]"
    and "muxer_close (hangUp w (Peer_info key) callback) m
        = muxer_close w m @ [Close_hangUp key callback]"
    and "muxedConns (hangUp w (Peer_info key) callback) = muxedConns w"
    by (simp_all add: hangUp_def getPeerInfo_def)
next
  assume l: "muxer_close v m = ls @ Close_hangUp key callback # ls'"
  let ?start = "(act (Muxer_closed m) v)\<lparr>muxer_close := (muxer_close v)(m := [])\<rparr>"
  let ?mid = "foldl run_close_listener ?start ls"
  let ?fin = "?mid\<lparr>muxedConns := (muxedConns ?mid)(key := None)\<rparr>"
  have "muxer_emit_close v m
      = foldl run_close_listener (act (HangUp_callback callback None) ?fin) ls'"
    using l by (simp add: muxer_emit_close_def run_close_listener_def)
  moreover have "Muxer_closed m \<in> set (trace ?fin)"
    using run_close_listeners_trace [where w = ?start and ls = ls] by auto
  moreover have "muxedConns ?fin key = None"
    and "muxedConns (act (HangUp_callback callback None) ?fin) key = None"
    by simp_all
  ultimately show "\<exists>v1. muxer_emit_close v m
            = foldl run_close_listener (act (HangUp_callback callback None) v1) ls'
        \<and> Muxer_closed m \<in> set (trace v1)
        \<and> muxedConns v1 key = None
        \<and> muxedConns (act (HangUp_callback callback None) v1) key = None"
    by blast
qed


theorem C6_hangUp_witness:
  "hangUp world_muxed (Peer_id ''QmRemote'') 5 = act (Throw Type_error) world_muxed
   \<and> trace (hangUp world_muxed (Peer_id ''QmRemote'') 5) = [Throw Type_error]
   \<and> muxedConns (hangUp world_muxed (Peer_id ''QmRemote'') 5) ''QmRemote'' = Some 0
   \<and> muxedConns world0 ''QmRemote'' = None
   \<and> hangUp world0 (Peer_info ''QmRemote'') 5 = act (HangUp_callback 5 None) world0
   \<and> muxedConns world_muxed ''QmRemote'' = Some 0
   \<and> trace (hangUp world_muxed (Peer_info ''QmRemote'') 5) = [Muxer_end 0]
   \<and> muxer_close (hangUp world_muxed (Peer_info ''QmRemote'') 5) 0
     = [Close_disconnect 0, Close_hangUp ''QmRemote'' 5]
   \<and> muxedConns (muxer_emit_close (hangUp world_muxed (Peer_info ''QmRemote'') 5) 0)
       ''QmRemote'' = None
   \<and> trace (muxer_emit_close (hangUp world_muxed (Peer_info ''QmRemote'') 5) 0)
     = [Muxer_end 0, Muxer_closed 0, Peer_disconnect ''QmRemote'', Peer_disconnect ''QmLocal'',
        Switch_emit_later ''peer-mux-closed'' (Some ''QmRemote''), HangUp_callback 5 None]"
proof -
  let ?h = "hangUp world_muxed (Peer_info ''QmRemote'') 5"
  have n: "muxedConns world0 ''QmRemote'' = None"
    by (simp add: world0_def)
  have a: "muxedConns world_muxed ''QmRemote'' = Some 0 \<and> fsms world_muxed 0 = Some fsm_muxed
      \<and> muxer fsm_muxed = Some 0"
    by (simp add: world_muxed_def fsm_muxed_def)
  have t: "trace world_muxed = []" and l: "muxer_close world_muxed 0 = [Close_disconnect 0]"
    by (simp_all add: world_muxed_def world0_def)
  note first = C6_hangUp [of world0 "''QmRemote''" 5 0 fsm_muxed 0 world0 "[]" "[]"]
  note second = C6_hangUp [of world_muxed "''QmRemote''" 5 0 fsm_muxed 0 ?h
      "[Close_disconnect 0]" "[]"]
  from second a t l have h: "trace ?h = [Muxer_end 0]"
      "muxer_close ?h 0 = [Close_disconnect 0, Close_hangUp ''QmRemote'' 5]"
    by simp_all
  from second a t have p: "hangUp world_muxed (Peer_id ''QmRemote'') 5
        = act (Throw Type_error) world_muxed"
      "trace (hangUp world_muxed (Peer_id ''QmRemote'') 5) = [Throw Type_error]"
      "muxedConns (hangUp world_muxed (Peer_id ''QmRemote'') 5) ''QmRemote'' = Some 0"
    by simp_all
  from second h obtain v1 where e: "muxer_emit_close ?h 0 = act (HangUp_callback 5 None) v1"
    and m: "muxedConns v1 ''QmRemote'' = None"
    by auto
  let ?s = "(act (Muxer_closed 0) ?h)\<lparr>muxer_close := (muxer_close ?h)(0 := [])\<rparr>"
  have fs: "fsms ?s 0 = Some fsm_muxed"
    using a by (simp add: hangUp_def getPeerInfo_def)
  have ns: "next_state conn_table (state fsm_muxed) Ev_disconnect = Some DISCONNECTING"
    by (simp add: fsm_muxed_def next_state_def conn_table_def)
  have "trace (muxer_emit_close ?h 0)
      = trace (state_emit ?s 0 Ev_disconnect) @ [HangUp_callback 5 None]"
    using h(2) by (simp add: muxer_emit_close_def run_close_listener_def)
  also have "\<dots> = [Muxer_end 0, Muxer_closed 0, Peer_disconnect ''QmRemote'',
        Peer_disconnect ''QmLocal'', Switch_emit_later ''peer-mux-closed'' (Some ''QmRemote''),
        HangUp_callback 5 None]"
    unfolding disconnecting_effect(1) [OF fs ns] using h(1)
    by (simp add: fsm_muxed_def)
  finally have tr: "trace (muxer_emit_close ?h 0) = [Muxer_end 0, Muxer_closed 0,
        Peer_disconnect ''QmRemote'', Peer_disconnect ''QmLocal'',
        Switch_emit_later ''peer-mux-closed'' (Some ''QmRemote''), HangUp_callback 5 None]" .
  from first n p a h e m tr show ?thesis
    by simp
qed

subsection \<open>The table of muxed connections\<close>

text \<open>What the table's invariant reads of an FSM: its state and the peer it was made
  for.\<close>

definition ess :: "world \<Rightarrow> ref \<Rightarrow> (conn_state \<times> b58) option" where
  "ess w j = map_option (\<lambda>f. (state f, theirB58Id f)) (fsms w j)"

definition table_inv :: "world \<Rightarrow> bool" where
  "table_inv w = (\<forall>P j. muxedConns w P = Some j \<longrightarrow> ess w j = Some (MUXED, P))"

text \<open>A step of FSM \<open>i\<close> that stores nothing: other FSMs keep state and peer, \<open>i\<close> keeps
  its peer, and entries of the table are only removed.\<close>

definition frame_ok :: "ref \<Rightarrow> world \<Rightarrow> world \<Rightarrow> bool" where
  "frame_ok i w w' =
     ((\<forall>j. j \<noteq> i \<longrightarrow> ess w' j = ess w j)
      \<and> map_option snd (ess w' i) = map_option snd (ess w i)
      \<and> (\<forall>P k. muxedConns w' P = Some k \<longrightarrow> muxedConns w P = Some k))"

text \<open>Moreover, if \<open>i\<close> was \<open>MUXED\<close> it still is, or the entry of its peer is gone.\<close>

definition step_ok :: "ref \<Rightarrow> world \<Rightarrow> world \<Rightarrow> bool" where
  "step_ok i w w' =
     (frame_ok i w w'
      \<and> (\<forall>b. ess w i = Some (MUXED, b) \<longrightarrow>
            ess w' i = Some (MUXED, b) \<or> muxedConns w' b = None))"

lemma frame_ok_trans:
  assumes "frame_ok i w w1" and "frame_ok i w1 w2"
  shows "frame_ok i w w2"
  using assms unfolding frame_ok_def by auto

lemma frame_ok_same:
  assumes "\<And>j. ess w' j = ess w j" and "muxedConns w' = muxedConns w"
  shows "frame_ok i w w'"
  using assms unfolding frame_ok_def by simp

lemma step_ok_same:
  assumes "\<And>j. ess w' j = ess w j" and "muxedConns w' = muxedConns w"
  shows "step_ok i w w'"
  using assms unfolding step_ok_def frame_ok_def by simp

lemma step_ok_trans:
  assumes a: "step_ok i w w1" and b: "step_ok i w1 w2"
  shows "step_ok i w w2"
proof -
  from a b have f: "frame_ok i w w2"
    unfolding step_ok_def by (blast intro: frame_ok_trans)
  have "ess w2 i = Some (MUXED, c) \<or> muxedConns w2 c = None" if m: "ess w i = Some (MUXED, c)" for c
  proof (cases "ess w1 i = Some (MUXED, c)")
    case True
    with b show ?thesis unfolding step_ok_def by auto
  next
    case False
    with a m have "muxedConns w1 c = None"
      unfolding step_ok_def by auto
    with b have "muxedConns w2 c = None"
      unfolding step_ok_def frame_ok_def by (cases "muxedConns w2 c") auto
    then show ?thesis ..
  qed
  with f show ?thesis
    unfolding step_ok_def by blast
qed

lemma table_inv_step:
  assumes inv: "table_inv w" and s: "step_ok i w w'"
  shows "table_inv w'"
  unfolding table_inv_def
proof (intro allI impI)
  fix P j
  assume m': "muxedConns w' P = Some j"
  with s have m: "muxedConns w P = Some j"
    unfolding step_ok_def frame_ok_def by blast
  with inv have e: "ess w j = Some (MUXED, P)"
    unfolding table_inv_def by blast
  show "ess w' j = Some (MUXED, P)"
  proof (cases "j = i")
    case False
    with s e show ?thesis unfolding step_ok_def frame_ok_def by simp
  next
    case True
    with s e m' show ?thesis unfolding step_ok_def by auto
  qed
qed

lemma ess_simps [simp]:
  "ess (act a w) = ess w"
  "ess (multiaddrs_add p x w) = ess w"
  "ess (w\<lparr>conns := c\<rparr>) = ess w"
  "ess (w\<lparr>muxedConns := t\<rparr>) = ess w"
  "ess (w\<lparr>muxer_close := l\<rparr>) = ess w"
  "ess (w\<lparr>next_muxer := n\<rparr>) = ess w"
  by (simp_all add: ess_def fun_eq_iff)

lemma ess_upd_fsm:
  "ess (upd_fsm i g w) j =
     (if j = i then map_option (\<lambda>f. (state (g f), theirB58Id (g f))) (fsms w i) else ess w j)"
  by (simp add: ess_def fsms_upd_fsm option.map_comp comp_def)

lemma ess_upd_fsm_same:
  assumes "\<And>f. state (g f) = state f" and "\<And>f. theirB58Id (g f) = theirB58Id f"
  shows "ess (upd_fsm i g w) = ess w"
  using assms by (simp add: fun_eq_iff ess_def fsms_upd_fsm option.map_comp comp_def)

lemma ess_await [simp]: "ess (await i c w) = ess w"
  by (simp add: await_def ess_upd_fsm_same)

lemma ess_resume [simp]: "ess (resume i c w) = ess w"
  by (simp add: resume_def ess_upd_fsm_same)

lemma multiaddrs_add_tables [simp]:
  "muxedConns (multiaddrs_add p a w) = muxedConns w"
  "conns (multiaddrs_add p a w) = conns w"
  by (simp_all add: multiaddrs_add_def)

text \<open>The handlers store nothing in \<open>muxedConns\<close> and change no state themselves.\<close>

lemma on_enter_frame:
  "ess (fst (on_enter w i s)) = ess w
   \<and> (\<forall>P k. muxedConns (fst (on_enter w i s)) P = Some k \<longrightarrow> muxedConns w P = Some k)"
  by (cases s)
     (auto simp: on_enter_def onDialing_def nextTransport_def transport_dial_def
        onDisconnecting_def onEncrypting_def onUpgrading_def onPrivatizing_def
        cleanup_def disconnect_peers_def Let_def ess_upd_fsm_same
        split: option.splits if_splits prod.splits)

lemma on_enter_disconnecting_removes:
  assumes "fsms w i = Some f"
  shows "muxedConns (fst (on_enter w i DISCONNECTING)) (theirB58Id f) = None"
  using assms
  by (simp add: on_enter_def onDisconnecting_def cleanup_def disconnect_peers_def Let_def
      split: option.splits)


lemma frame_ok_refl: "frame_ok i w w"
  by (simp add: frame_ok_def)

lemma state_emit_frame: "frame_ok i w (state_emit w i ev)"
proof (induction w i ev rule: state_emit.induct)
  case (1 w i ev)
  show ?case
  proof (cases "fsms w i")
    case None
    then show ?thesis by (simp add: state_emit.simps [of w] frame_ok_refl)
  next
    case (Some f)
    show ?thesis
    proof (cases "next_state conn_table (state f) ev")
      case None
      with Some show ?thesis
        by (simp add: state_emit.simps [of w] frame_ok_same)
    next
      case s: (Some s)
      let ?w1 = "upd_fsm i (\<lambda>g. g\<lparr>state := s\<rparr>) w"
      obtain w' o' where e: "on_enter ?w1 i s = (w', o')"
        by (cases "on_enter ?w1 i s")
      have "frame_ok i w ?w1"
        by (simp add: frame_ok_def ess_def fsms_upd_fsm option.map_comp comp_def)
      moreover have "frame_ok i ?w1 w'"
        using on_enter_frame [of ?w1 i s] e by (simp add: frame_ok_def)
      ultimately have m: "frame_ok i w w'"
        by (rule frame_ok_trans)
      show ?thesis
      proof (cases o')
        case None
        with Some s e m show ?thesis by (simp add: state_emit.simps [of w])
      next
        case (Some ev')
        from "1.IH" [OF \<open>fsms w i = Some f\<close> s e [symmetric] Some]
        have "frame_ok i w' (state_emit w' i ev')" .
        with m have "frame_ok i w (state_emit w' i ev')"
          by (rule frame_ok_trans)
        with \<open>fsms w i = Some f\<close> s e Some show ?thesis
          by (simp add: state_emit.simps [of w])
      qed
    qed
  qed
qed

lemma muxed_row:
  assumes "next_state conn_table MUXED ev = Some s"
  shows "s = DISCONNECTING"
  using assms by (cases ev) (simp_all add: next_state_def conn_table_def)

lemma state_emit_step_ok: "step_ok i w (state_emit w i ev)"
  unfolding step_ok_def
proof (intro conjI allI impI)
  show "frame_ok i w (state_emit w i ev)"
    by (rule state_emit_frame)
next
  fix b
  assume "ess w i = Some (MUXED, b)"
  then obtain f where f: "fsms w i = Some f" and st: "state f = MUXED" and b: "theirB58Id f = b"
    by (auto simp: ess_def)
  show "ess (state_emit w i ev) i = Some (MUXED, b) \<or> muxedConns (state_emit w i ev) b = None"
  proof (cases "next_state conn_table (state f) ev")
    case None
    with f st b have "ess (state_emit w i ev) i = Some (MUXED, b)"
      by (simp add: state_emit.simps [of w] ess_def)
    then show ?thesis ..
  next
    case (Some s)
    with st have "next_state conn_table (state f) ev = Some DISCONNECTING"
      using muxed_row [of ev s] by simp
    from disconnecting_effect(4) [OF f this] b
    have "muxedConns (state_emit w i ev) b = None"
      by simp
    then show ?thesis ..
  qed
qed

lemma table_inv_state_emit:
  assumes "table_inv w"
  shows "table_inv (state_emit w i ev)"
  using assms state_emit_step_ok by (rule table_inv_step)

lemma table_inv_same:
  assumes "table_inv w" and "\<And>j. ess w' j = ess w j" and "muxedConns w' = muxedConns w"
  shows "table_inv w'"
  using assms unfolding table_inv_def by simp

lemma table_inv_finish:
  assumes "table_inv (fst r)"
  shows "table_inv (finish i r)"
  using assms by (cases r) (auto simp: finish_def table_inv_state_emit split: option.splits)

lemma nextTransport_same:
  "ess (fst (nextTransport w i ks ct ce key)) = ess w
   \<and> muxedConns (fst (nextTransport w i ks ct ce key)) = muxedConns w"
  by (auto simp: nextTransport_def transport_dial_def split: option.splits)

lemma table_inv_transport_dial_cb:
  assumes "table_inv w"
  shows "table_inv (transport_dial_cb w i c res)"
proof (cases c)
  case (Dial_cb t ks ct ce)
  show ?thesis
  proof (cases "fsms w i")
    case None
    with Dial_cb assms show ?thesis by (simp add: transport_dial_cb_def)
  next
    case (Some f)
    show ?thesis
    proof (cases "c \<in> set (waiting f)")
      case False
      with Dial_cb Some assms show ?thesis by (simp add: transport_dial_cb_def)
    next
      case True
      show ?thesis
      proof (cases res)
        case (Inl e)
        obtain key rest where sh: "shift ks = (key, rest)"
          by (cases "shift ks")
        have "table_inv (fst (nextTransport (resume i c w) i rest ct ce key))"
          using assms nextTransport_same [of "resume i c w" i rest ct ce key]
          by (intro table_inv_same [OF assms]) simp_all
        then have "table_inv (finish i (nextTransport (resume i c w) i rest ct ce key))"
          by (rule table_inv_finish)
        with Dial_cb Some True Inl sh show ?thesis
          by (simp add: transport_dial_cb_def)
      next
        case (Inr x)
        let ?w1 = "upd_fsm i (\<lambda>g. g\<lparr>conn := Some (Observed (Some t) None x)\<rparr>) (resume i c w)"
        have "table_inv ?w1"
          by (rule table_inv_same [OF assms]) (simp_all add: ess_upd_fsm_same)
        then have "table_inv (state_emit ?w1 i Ev_done)"
          by (rule table_inv_state_emit)
        with Dial_cb Some True Inr show ?thesis
          by (simp add: transport_dial_cb_def)
      qed
    qed
  qed
qed (use assms in \<open>simp_all add: transport_dial_cb_def\<close>)


lemma table_inv_didUpgrade_error:
  assumes "table_inv w"
  shows "table_inv (didUpgrade w i (Some e))"
proof (cases "fsms w i")
  case None
  with assms show ?thesis by (simp add: didUpgrade_def)
next
  case (Some f)
  let ?w1 = "(act (Log_upgrade_error e) w)\<lparr>conns := (conns w)(theirB58Id f \<mapsto> i)\<rparr>"
  have "table_inv ?w1"
    by (rule table_inv_same [OF assms]) simp_all
  then have "table_inv (state_emit ?w1 i Ev_stop)"
    by (rule table_inv_state_emit)
  with Some show ?thesis
    by (simp add: didUpgrade_def Let_def)
qed

lemma table_inv_nextMuxer:
  assumes "table_inv w"
  shows "table_inv (nextMuxer (resume i c w) i ms key)"
  by (rule table_inv_same [OF assms]) (simp_all add: nextMuxer_def)

lemma table_inv_upgrade_handle_cb:
  assumes "table_inv w"
  shows "table_inv (upgrade_handle_cb w i c e)"
proof (cases c)
  case (Upgrade_handle_cb ms)
  have r: "table_inv (resume i c w)"
    by (rule table_inv_same [OF assms]) simp_all
  obtain key rest where sh: "shift ms = (key, rest)"
    by (cases "shift ms")
  from Upgrade_handle_cb sh assms r table_inv_didUpgrade_error [OF r]
    table_inv_nextMuxer [OF assms]
  show ?thesis
    by (simp add: upgrade_handle_cb_def split: option.splits)
qed (use assms in \<open>simp_all add: upgrade_handle_cb_def\<close>)

text \<open>The selection succeeds while the FSM is \<open>UPGRADING\<close>: the FSM is stored and then
  becomes \<open>MUXED\<close>.\<close>

lemma table_inv_select_success:
  assumes inv: "table_inv w"
    and f: "fsms w i = Some f"
    and st: "state f = UPGRADING"
  shows "table_inv (didUpgrade (install_muxer w i k c) i None)"
proof -
  let ?w2 = "install_muxer w i k c"
  have f2: "fsms ?w2 i = Some (f\<lparr>muxer := Some (next_muxer w)\<rparr>)"
    using f by (simp add: install_muxer_def Let_def fsms_upd_fsm)
  have d: "didUpgrade ?w2 i None
      = act (Emit ''muxed'') (upd_fsm i (\<lambda>g. g\<lparr>state := MUXED\<rparr>) ?w2)"
    using f2 state_emit_done [OF f2] st by (simp add: didUpgrade_def)
  have m: "muxedConns ?w2 = (muxedConns w)(theirB58Id f \<mapsto> i)"
    using f by (simp add: install_muxer_def Let_def)
  have e: "ess ?w2 = ess w"
    using f by (simp add: install_muxer_def Let_def ess_upd_fsm_same)
  show ?thesis
    unfolding d table_inv_def
  proof (intro allI impI)
    fix P j
    assume a: "muxedConns (act (Emit ''muxed'') (upd_fsm i (\<lambda>g. g\<lparr>state := MUXED\<rparr>) ?w2)) P
        = Some j"
    show "ess (act (Emit ''muxed'') (upd_fsm i (\<lambda>g. g\<lparr>state := MUXED\<rparr>) ?w2)) j
        = Some (MUXED, P)"
    proof (cases "P = theirB58Id f")
      case True
      with a m have "j = i" by simp
      with True f2 show ?thesis
        by (simp add: ess_upd_fsm)
    next
      case False
      with a m have old: "muxedConns w P = Some j" by simp
      with inv have ej: "ess w j = Some (MUXED, P)"
        unfolding table_inv_def by blast
      with f st have "j \<noteq> i"
        by (auto simp: ess_def)
      with ej e show ?thesis
        by (simp add: ess_upd_fsm)
    qed
  qed
qed

subsection \<open>Operations in flight\<close>

text \<open>The callbacks of \<open>shake\<close> trigger no event and store nothing in the FSM.\<close>

definition neutral :: "closure \<Rightarrow> bool" where
  "neutral c =
     (case c of
        New_stream_cb p k \<Rightarrow> True
      | Handshake_handle_cb p k \<Rightarrow> True
      | Handshake_select_cb p k \<Rightarrow> True
      | _ \<Rightarrow> False)"

definition upgrade_closure :: "closure \<Rightarrow> bool" where
  "upgrade_closure c =
     (case c of Upgrade_handle_cb ms \<Rightarrow> True | Upgrade_select_cb k ms \<Rightarrow> True | _ \<Rightarrow> False)"

text \<open>The closures of an FSM whose callbacks trigger events.\<close>

definition pend :: "conn_fsm \<Rightarrow> closure list" where
  "pend f = filter (\<lambda>c. \<not> neutral c) (waiting f)"

text \<open>Which closure can wait in which state: the closure of the operation the state
  started; in a state that \<open>disconnect\<close> or \<open>abort\<close> led to, the closure of an operation
  that was in flight then, which is never one of \<open>_onUpgrading\<close>.\<close>

definition kind_ok :: "conn_state \<Rightarrow> closure \<Rightarrow> bool" where
  "kind_ok s c =
     (case s of
        DIALING \<Rightarrow> (case c of Dial_cb t ks ct ce \<Rightarrow> True | _ \<Rightarrow> False)
      | PRIVATIZING \<Rightarrow> c = Protect_cb
      | ENCRYPTING \<Rightarrow> c = Encrypt_handle_cb \<or> c = Encrypt_select_cb \<or> c = Encrypt_crypto_cb
      | UPGRADING \<Rightarrow> upgrade_closure c
      | DISCONNECTING \<Rightarrow> \<not> upgrade_closure c
      | DISCONNECTED \<Rightarrow> \<not> upgrade_closure c
      | ABORTED \<Rightarrow> \<not> upgrade_closure c
      | ERRORED \<Rightarrow> \<not> upgrade_closure c
      | _ \<Rightarrow> False)"

definition wait_ok :: "conn_fsm \<Rightarrow> bool" where
  "wait_ok f = (length (pend f) \<le> 1 \<and> (\<forall>c \<in> set (pend f). kind_ok (state f) c))"

text \<open>The events that are triggered from outside an FSM, \<open>dial\<close> apart.\<close>

definition api :: "event \<Rightarrow> bool" where
  "api ev = (ev \<in> {Ev_privatize, Ev_encrypt, Ev_upgrade, Ev_abort, Ev_disconnect})"

definition emit_ok :: "conn_fsm \<Rightarrow> event \<Rightarrow> bool" where
  "emit_ok f ev =
     (pend f = []
      \<or> (wait_ok f \<and> api ev)
      \<or> (state f = DISCONNECTING \<and> ev = Ev_done \<and> length (pend f) \<le> 1
          \<and> (\<forall>c \<in> set (pend f). \<not> upgrade_closure c)))"

lemma on_enter_other:
  assumes "j \<noteq> i"
  shows "fsms (fst (on_enter w i s)) j = fsms w j"
  using assms
  by (cases s)
     (auto simp: on_enter_def onDialing_def nextTransport_def transport_dial_def
        onDisconnecting_def onEncrypting_def onUpgrading_def onPrivatizing_def
        cleanup_def disconnect_peers_def Let_def fsms_upd_fsm await_def
        split: option.splits if_splits prod.splits)

lemma on_enter_fsm:
  assumes "fsms w i = Some f"
  shows "\<exists>g. fsms (fst (on_enter w i s)) i = Some g \<and> state g = state f
    \<and> (waiting g = waiting f
       \<or> (snd (on_enter w i s) = None
          \<and> (\<exists>c. waiting g = waiting f @ [c] \<and> \<not> neutral c \<and> kind_ok s c)))"
  using assms
  by (cases s)
     (auto simp: on_enter_def onDialing_def nextTransport_def transport_dial_def
        onDisconnecting_def onEncrypting_def onUpgrading_def onPrivatizing_def
        cleanup_def disconnect_peers_def Let_def fsms_upd_fsm await_def
        neutral_def kind_ok_def upgrade_closure_def
        split: option.splits if_splits prod.splits)

lemma on_enter_rest:
  "on_enter w i ABORTED = (w, None)"
  "on_enter w i DISCONNECTED = (w, None)"
  "fsms w i = Some f \<Longrightarrow> snd (on_enter w i DISCONNECTING) = Some Ev_done"
  by (simp_all add: on_enter_def onDisconnecting_def)

lemma api_step:
  assumes "wait_ok f" and "pend f \<noteq> []" and "api ev"
    and "next_state conn_table (state f) ev = Some s"
  shows "(s = ABORTED \<or> s = DISCONNECTING) \<and> (\<forall>c \<in> set (pend f). \<not> upgrade_closure c)"
proof -
  from assms(1,2) obtain c where c: "pend f = [c]" and k: "kind_ok (state f) c"
    by (cases "pend f") (auto simp: wait_ok_def)
  from assms(3,4) k have "(s = ABORTED \<or> s = DISCONNECTING) \<and> \<not> upgrade_closure c"
    by (cases "state f"; cases ev)
       (auto simp: api_def next_state_def conn_table_def kind_ok_def upgrade_closure_def
          split: closure.splits)
  with c show ?thesis by simp
qed


lemma pend_set_state [simp]: "pend (f\<lparr>state := s\<rparr>) = pend f"
  by (simp add: pend_def)

lemma wait_ok_idle: "pend f = [] \<Longrightarrow> wait_ok f"
  by (simp add: wait_ok_def)

text \<open>One handler: if the event may be triggered, the FSM is in order when the handler
  returns, or the event the handler ends with may be triggered.\<close>

lemma emit_step:
  assumes f: "fsms w i = Some f"
    and ok: "emit_ok f ev"
    and s: "next_state conn_table (state f) ev = Some s"
    and e: "on_enter (upd_fsm i (\<lambda>g. g\<lparr>state := s\<rparr>) w) i s = (w', o')"
  shows "\<exists>g. fsms w' i = Some g
    \<and> (case o' of None \<Rightarrow> wait_ok g | Some ev' \<Rightarrow> emit_ok g ev')"
proof -
  let ?w1 = "upd_fsm i (\<lambda>g. g\<lparr>state := s\<rparr>) w"
  let ?f1 = "f\<lparr>state := s\<rparr>"
  have f1: "fsms ?w1 i = Some ?f1"
    using f by (simp add: fsms_upd_fsm)
  from on_enter_fsm [OF f1, of s] e obtain g where g: "fsms w' i = Some g"
    and st: "state g = s"
    and wt: "waiting g = waiting f
       \<or> (o' = None \<and> (\<exists>c. waiting g = waiting f @ [c] \<and> \<not> neutral c \<and> kind_ok s c))"
    by auto
  have same: "pend g = pend f" if "waiting g = waiting f"
    using that by (simp add: pend_def)
  consider (idle) "pend f = []"
    | (api) "pend f \<noteq> []" "wait_ok f" "api ev"
    | (last) "pend f \<noteq> []" "state f = DISCONNECTING" "ev = Ev_done" "length (pend f) \<le> 1"
        "\<forall>c \<in> set (pend f). \<not> upgrade_closure c"
    using ok unfolding emit_ok_def by blast
  then have "case o' of None \<Rightarrow> wait_ok g | Some ev' \<Rightarrow> emit_ok g ev'"
  proof cases
    case idle
    show ?thesis
    proof (cases o')
      case None
      from wt show ?thesis
      proof
        assume "waiting g = waiting f"
        with idle None show ?thesis by (simp add: same wait_ok_idle)
      next
        assume "o' = None \<and> (\<exists>c. waiting g = waiting f @ [c] \<and> \<not> neutral c \<and> kind_ok s c)"
        then obtain c where "waiting g = waiting f @ [c]" "\<not> neutral c" "kind_ok s c"
          by blast
        with idle st have "pend g = [c]" "kind_ok (state g) c"
          by (simp_all add: pend_def)
        with None show ?thesis by (simp add: wait_ok_def)
      qed
    next
      case (Some ev')
      with wt have "waiting g = waiting f" by simp
      with idle Some show ?thesis by (simp add: same emit_ok_def)
    qed
  next
    case api
    from api_step [OF api(2) api(1) api(3) s]
    have s': "s = ABORTED \<or> s = DISCONNECTING"
      and nu: "\<forall>c \<in> set (pend f). \<not> upgrade_closure c"
      by simp_all
    from api(2) have len: "length (pend f) \<le> 1"
      by (simp add: wait_ok_def)
    from s' show ?thesis
    proof
      assume a: "s = ABORTED"
      with e g f1 have "g = ?f1" and o: "o' = None"
        by (simp_all add: on_enter_rest)
      with a nu len have "wait_ok g"
        by (simp add: wait_ok_def kind_ok_def)
      with o show ?thesis by simp
    next
      assume d: "s = DISCONNECTING"
      with e on_enter_rest(3) [OF f1] have o: "o' = Some Ev_done"
        by simp
      with wt have "waiting g = waiting f" by simp
      with nu len st d have "emit_ok g Ev_done"
        by (simp add: same emit_ok_def)
      with o show ?thesis by simp
    qed
  next
    case last
    with s have d: "s = DISCONNECTED"
      by (simp add: next_state_def conn_table_def)
    with e g f1 have "g = ?f1" and o: "o' = None"
      by (simp_all add: on_enter_rest)
    with d last have "wait_ok g"
      by (simp add: wait_ok_def kind_ok_def)
    with o show ?thesis by simp
  qed
  with g show ?thesis by blast
qed

lemma state_emit_wait:
  assumes "fsms w i = Some f" and "emit_ok f ev"
  shows "\<exists>f'. fsms (state_emit w i ev) i = Some f' \<and> wait_ok f'"
  using assms
proof (induction w i ev arbitrary: f rule: state_emit.induct)
  case (1 w i ev)
  note f = \<open>fsms w i = Some f\<close> and ok = \<open>emit_ok f ev\<close>
  show ?case
  proof (cases "next_state conn_table (state f) ev")
    case None
    from ok None have "wait_ok f"
      by (auto simp: emit_ok_def wait_ok_idle next_state_def conn_table_def)
    with f None show ?thesis
      by (simp add: state_emit.simps [of w])
  next
    case s: (Some s)
    obtain w' o' where e: "on_enter (upd_fsm i (\<lambda>g. g\<lparr>state := s\<rparr>) w) i s = (w', o')"
      by (cases "on_enter (upd_fsm i (\<lambda>g. g\<lparr>state := s\<rparr>) w) i s")
    from emit_step [OF f ok s e] obtain g where g: "fsms w' i = Some g"
      and c: "case o' of None \<Rightarrow> wait_ok g | Some ev' \<Rightarrow> emit_ok g ev'"
      by blast
    show ?thesis
    proof (cases o')
      case None
      with f s e g c show ?thesis
        by (simp add: state_emit.simps [of w])
    next
      case (Some ev')
      with c have "emit_ok g ev'" by simp
      from "1.IH" [OF f s e [symmetric] Some g this]
      have "\<exists>f'. fsms (state_emit w' i ev') i = Some f' \<and> wait_ok f'" .
      with f s e Some show ?thesis
        by (simp add: state_emit.simps [of w])
    qed
  qed
qed

lemma state_emit_other:
  assumes "j \<noteq> i"
  shows "fsms (state_emit w i ev) j = fsms w j"
  using assms
proof (induction w i ev rule: state_emit.induct)
  case (1 w i ev)
  show ?case
  proof (cases "fsms w i")
    case None
    then show ?thesis by (simp add: state_emit.simps [of w])
  next
    case (Some f)
    show ?thesis
    proof (cases "next_state conn_table (state f) ev")
      case None
      with Some show ?thesis by (simp add: state_emit.simps [of w])
    next
      case s: (Some s)
      let ?w1 = "upd_fsm i (\<lambda>g. g\<lparr>state := s\<rparr>) w"
      obtain w' o' where e: "on_enter ?w1 i s = (w', o')"
        by (cases "on_enter ?w1 i s")
      have m: "fsms w' j = fsms w j"
        using on_enter_other [OF \<open>j \<noteq> i\<close>, of ?w1 s] e \<open>j \<noteq> i\<close>
        by (simp add: fsms_upd_fsm)
      show ?thesis
      proof (cases o')
        case None
        with Some s e m show ?thesis by (simp add: state_emit.simps [of w])
      next
        case (Some ev')
        from "1.IH" [OF \<open>fsms w i = Some f\<close> s e [symmetric] Some \<open>j \<noteq> i\<close>]
        have "fsms (state_emit w' i ev') j = fsms w' j" .
        with \<open>fsms w i = Some f\<close> s e Some m show ?thesis
          by (simp add: state_emit.simps [of w])
      qed
    qed
  qed
qed


text \<open>Every FSM of the switch is in order; FSM \<open>i\<close> has no operation in flight; closure
  \<open>c\<close> can wait in the state of FSM \<open>i\<close>.\<close>

definition waits_ok :: "world \<Rightarrow> bool" where
  "waits_ok w = (\<forall>i. case fsms w i of None \<Rightarrow> True | Some f \<Rightarrow> wait_ok f)"

definition idle :: "world \<Rightarrow> ref \<Rightarrow> bool" where
  "idle w i = (case fsms w i of None \<Rightarrow> True | Some f \<Rightarrow> pend f = [])"

definition kind_at :: "world \<Rightarrow> ref \<Rightarrow> closure \<Rightarrow> bool" where
  "kind_at w i c = (case fsms w i of None \<Rightarrow> True | Some f \<Rightarrow> kind_ok (state f) c)"

lemma waits_okD: "waits_ok w \<Longrightarrow> fsms w i = Some f \<Longrightarrow> wait_ok f"
  unfolding waits_ok_def by (drule spec [of _ i]) simp

lemma waits_simps [simp]:
  "waits_ok (act a w) = waits_ok w"
  "waits_ok (multiaddrs_add p x w) = waits_ok w"
  "waits_ok (w\<lparr>conns := cs\<rparr>) = waits_ok w"
  "waits_ok (w\<lparr>muxedConns := t\<rparr>) = waits_ok w"
  "waits_ok (w\<lparr>muxer_close := l\<rparr>) = waits_ok w"
  "waits_ok (w\<lparr>next_muxer := n\<rparr>) = waits_ok w"
  "idle (act a w) i = idle w i"
  "idle (multiaddrs_add p x w) i = idle w i"
  "idle (w\<lparr>conns := cs\<rparr>) i = idle w i"
  "idle (w\<lparr>muxedConns := t\<rparr>) i = idle w i"
  "idle (w\<lparr>muxer_close := l\<rparr>) i = idle w i"
  "idle (w\<lparr>next_muxer := n\<rparr>) i = idle w i"
  "kind_at (act a w) i c = kind_at w i c"
  "kind_at (multiaddrs_add p x w) i c = kind_at w i c"
  "kind_at (w\<lparr>conns := cs\<rparr>) i c = kind_at w i c"
  "kind_at (w\<lparr>muxedConns := t\<rparr>) i c = kind_at w i c"
  "kind_at (w\<lparr>muxer_close := l\<rparr>) i c = kind_at w i c"
  "kind_at (w\<lparr>next_muxer := n\<rparr>) i c = kind_at w i c"
  by (simp_all add: waits_ok_def idle_def kind_at_def)

lemma waits_upd_fsm:
  assumes "\<And>f. state (g f) = state f" and "\<And>f. waiting (g f) = waiting f"
  shows "waits_ok (upd_fsm j g w) = waits_ok w"
    and "idle (upd_fsm j g w) i = idle w i"
    and "kind_at (upd_fsm j g w) i c = kind_at w i c"
proof -
  have e: "wait_ok (g f) = wait_ok f" "pend (g f) = pend f" for f
    using assms by (simp_all add: wait_ok_def pend_def)
  have "(case fsms (upd_fsm j g w) k of None \<Rightarrow> True | Some f \<Rightarrow> wait_ok f)
      = (case fsms w k of None \<Rightarrow> True | Some f \<Rightarrow> wait_ok f)" for k
    by (simp add: fsms_upd_fsm e split: option.splits)
  then show "waits_ok (upd_fsm j g w) = waits_ok w"
    unfolding waits_ok_def by simp
  show "idle (upd_fsm j g w) i = idle w i"
    by (simp add: idle_def fsms_upd_fsm e split: option.splits)
  show "kind_at (upd_fsm j g w) i c = kind_at w i c"
    by (simp add: kind_at_def fsms_upd_fsm assms(1) split: option.splits)
qed

lemma waits_upd_conn [simp]:
  "waits_ok (upd_fsm j (\<lambda>g. g\<lparr>conn := x\<rparr>) w) = waits_ok w"
  "idle (upd_fsm j (\<lambda>g. g\<lparr>conn := x\<rparr>) w) i = idle w i"
  "kind_at (upd_fsm j (\<lambda>g. g\<lparr>conn := x\<rparr>) w) i c = kind_at w i c"
  "waits_ok (upd_fsm j (\<lambda>g. g\<lparr>muxer := m\<rparr>) w) = waits_ok w"
  "idle (upd_fsm j (\<lambda>g. g\<lparr>muxer := m\<rparr>) w) i = idle w i"
  "kind_at (upd_fsm j (\<lambda>g. g\<lparr>muxer := m\<rparr>) w) i c = kind_at w i c"
  by (simp_all add: waits_upd_fsm)

text \<open>The callback of the one operation in flight is called: no operation is in flight
  any more.\<close>

lemma waits_resume:
  assumes w: "waits_ok w" and f: "fsms w i = Some f" and c: "c \<in> set (waiting f)"
    and n: "\<not> neutral c"
  shows "waits_ok (resume i c w)" and "idle (resume i c w) i" and "kind_ok (state f) c"
    and "kind_at (resume i c w) i c"
proof -
  from w f have ok: "wait_ok f"
    by (rule waits_okD)
  from c n have "c \<in> set (pend f)"
    by (simp add: pend_def)
  with ok have p: "pend f = [c]" and k: "kind_ok (state f) c"
    by (cases "pend f"; simp add: wait_ok_def)+
  have "pend (f\<lparr>waiting := remove1 c (waiting f)\<rparr>) = remove1 c (pend f)"
    by (simp add: pend_def filter_remove1)
  with p have e: "pend (f\<lparr>waiting := remove1 c (waiting f)\<rparr>) = []"
    by simp
  from f e show "idle (resume i c w) i"
    by (simp add: idle_def fsms_resume)
  show "waits_ok (resume i c w)"
    unfolding waits_ok_def
  proof
    fix j
    show "case fsms (resume i c w) j of None \<Rightarrow> True | Some f \<Rightarrow> wait_ok f"
    proof (cases "j = i")
      case True
      with f e show ?thesis by (simp add: fsms_resume wait_ok_idle)
    next
      case False
      with w show ?thesis
        by (auto simp: fsms_resume split: option.splits dest: waits_okD)
    qed
  qed
  from k show "kind_ok (state f) c" .
  from f k show "kind_at (resume i c w) i c"
    by (simp add: kind_at_def fsms_resume)
qed

lemma waits_await:
  assumes w: "waits_ok w" and "idle w i" and "kind_at w i c"
  shows "waits_ok (await i c w)"
  unfolding waits_ok_def
proof
  fix j
  show "case fsms (await i c w) j of None \<Rightarrow> True | Some f \<Rightarrow> wait_ok f"
  proof (cases "j = i")
    case True
    with assms(2,3) show ?thesis
      by (auto simp: fsms_await idle_def kind_at_def wait_ok_def pend_def filter_empty_conv
          split: option.splits)
  next
    case False
    with w show ?thesis
      by (auto simp: fsms_await split: option.splits dest: waits_okD)
  qed
qed

lemma waits_neutral:
  assumes "neutral c"
  shows "waits_ok (await i c w) = waits_ok w" and "waits_ok (resume i c w) = waits_ok w"
proof -
  have a: "pend (f\<lparr>waiting := waiting f @ [c]\<rparr>) = pend f" for f
    using assms by (simp add: pend_def)
  have "pend (f\<lparr>waiting := remove1 c (waiting f)\<rparr>) = remove1 c (pend f)" for f
    by (simp add: pend_def filter_remove1)
  moreover have "c \<notin> set (pend f)" for f
    using assms by (simp add: pend_def)
  ultimately have r: "pend (f\<lparr>waiting := remove1 c (waiting f)\<rparr>) = pend f" for f
    by (simp add: remove1_idem)
  have "wait_ok (f\<lparr>waiting := waiting f @ [c]\<rparr>) = wait_ok f"
    and "wait_ok (f\<lparr>waiting := remove1 c (waiting f)\<rparr>) = wait_ok f" for f
    using a r by (simp_all add: wait_ok_def)
  then have "(case fsms (await i c w) k of None \<Rightarrow> True | Some f \<Rightarrow> wait_ok f)
      = (case fsms w k of None \<Rightarrow> True | Some f \<Rightarrow> wait_ok f)"
    and "(case fsms (resume i c w) k of None \<Rightarrow> True | Some f \<Rightarrow> wait_ok f)
      = (case fsms w k of None \<Rightarrow> True | Some f \<Rightarrow> wait_ok f)" for k
    by (simp_all add: fsms_await fsms_resume split: option.splits)
  then show "waits_ok (await i c w) = waits_ok w"
    and "waits_ok (resume i c w) = waits_ok w"
    unfolding waits_ok_def by simp_all
qed

lemma waits_state_emit:
  assumes w: "waits_ok w" and ok: "idle w i \<or> api ev"
  shows "waits_ok (state_emit w i ev)"
  unfolding waits_ok_def
proof
  fix j
  show "case fsms (state_emit w i ev) j of None \<Rightarrow> True | Some f \<Rightarrow> wait_ok f"
  proof (cases "j = i")
    case False
    with w state_emit_other [of j i w ev] show ?thesis
      by (auto split: option.splits dest: waits_okD)
  next
    case True
    show ?thesis
    proof (cases "fsms w i")
      case None
      with True show ?thesis by (simp add: state_emit.simps [of w])
    next
      case (Some f)
      with w ok have "emit_ok f ev"
        by (auto simp: emit_ok_def idle_def dest: waits_okD)
      from state_emit_wait [OF Some this] True show ?thesis by auto
    qed
  qed
qed

lemma waits_finish:
  assumes "waits_ok (fst r)" and "idle (fst r) i"
  shows "waits_ok (finish i r)"
  using assms by (cases r) (auto simp: finish_def waits_state_emit split: option.splits)

lemma kind_ok_upgrade:
  assumes "kind_ok s c" and "upgrade_closure c"
  shows "s = UPGRADING"
  using assms by (cases s; cases c) (simp_all add: kind_ok_def upgrade_closure_def)

lemma kind_ok_family:
  "kind_ok s (Dial_cb t ks ct ce) \<Longrightarrow> kind_ok s (Dial_cb t' ks' ct' ce')"
  "kind_ok s Encrypt_handle_cb \<Longrightarrow> kind_ok s Encrypt_select_cb"
  "kind_ok s Encrypt_select_cb \<Longrightarrow> kind_ok s Encrypt_crypto_cb"
  "kind_ok s (Upgrade_handle_cb ms) \<Longrightarrow> kind_ok s (Upgrade_select_cb k ms')"
  "kind_ok s (Upgrade_select_cb k ms) \<Longrightarrow> kind_ok s (Upgrade_select_cb k' ms')"
  by (cases s; simp add: kind_ok_def upgrade_closure_def)+

lemma kind_at_family:
  "kind_at w i (Dial_cb t ks ct ce) \<Longrightarrow> kind_at w i (Dial_cb t' ks' ct' ce')"
  "kind_at w i Encrypt_handle_cb \<Longrightarrow> kind_at w i Encrypt_select_cb"
  "kind_at w i Encrypt_select_cb \<Longrightarrow> kind_at w i Encrypt_crypto_cb"
  "kind_at w i (Upgrade_handle_cb ms) \<Longrightarrow> kind_at w i (Upgrade_select_cb k ms')"
  "kind_at w i (Upgrade_select_cb k ms) \<Longrightarrow> kind_at w i (Upgrade_select_cb k' ms')"
  unfolding kind_at_def by (auto split: option.splits intro: kind_ok_family)


lemma waits_nextTransport:
  assumes "waits_ok w" and "idle w i" and k: "kind_at w i (Dial_cb t0 k0 c0 e0)"
  shows "waits_ok (finish i (nextTransport w i ks ct ce key))"
proof -
  have "kind_at w i (Dial_cb t ks' ct' ce')" for t ks' ct' ce'
    using k by (rule kind_at_family)
  with assms(1,2) show ?thesis
    by (auto simp: nextTransport_def transport_dial_def finish_def waits_state_emit
        waits_await split: option.splits)
qed

lemma waits_transport_dial_cb:
  assumes w: "waits_ok w"
  shows "waits_ok (transport_dial_cb w i c res)"
proof (cases c)
  case (Dial_cb t ks ct ce)
  show ?thesis
  proof (cases "fsms w i")
    case None
    with Dial_cb w show ?thesis by (simp add: transport_dial_cb_def)
  next
    case (Some f)
    show ?thesis
    proof (cases "c \<in> set (waiting f)")
      case False
      with Dial_cb Some w show ?thesis by (simp add: transport_dial_cb_def)
    next
      case True
      have n: "\<not> neutral c"
        using Dial_cb by (simp add: neutral_def)
      note r = waits_resume [OF w Some True n]
      show ?thesis
      proof (cases res)
        case (Inl e)
        obtain key rest where sh: "shift ks = (key, rest)"
          by (cases "shift ks")
        from r(4) Dial_cb have "kind_at (resume i c w) i (Dial_cb t ks ct ce)"
          by simp
        from waits_nextTransport [OF r(1) r(2) this]
        have "waits_ok (finish i (nextTransport (resume i c w) i rest ct ce key))" .
        with Dial_cb Some True Inl sh show ?thesis
          by (simp add: transport_dial_cb_def)
      next
        case (Inr x)
        from r(1,2) Dial_cb Some True Inr show ?thesis
          by (simp add: transport_dial_cb_def waits_state_emit)
      qed
    qed
  qed
qed (use w in \<open>simp_all add: transport_dial_cb_def\<close>)

lemma waits_didUpgrade:
  assumes "waits_ok w" and "idle w i"
  shows "waits_ok (didUpgrade w i e)"
  using assms
  by (auto simp: didUpgrade_def Let_def waits_state_emit split: option.splits)

lemma waits_install_muxer [simp]:
  "waits_ok (install_muxer w i k x) = waits_ok w"
  "idle (install_muxer w i k x) j = idle w j"
  by (simp_all add: install_muxer_def Let_def split: option.splits)

lemma waits_upgrade_handle_cb:
  assumes w: "waits_ok w"
  shows "waits_ok (upgrade_handle_cb w i c e)"
proof (cases c)
  case (Upgrade_handle_cb ms)
  show ?thesis
  proof (cases "fsms w i")
    case None
    with Upgrade_handle_cb w show ?thesis by (simp add: upgrade_handle_cb_def)
  next
    case (Some f)
    show ?thesis
    proof (cases "c \<in> set (waiting f)")
      case False
      with Upgrade_handle_cb Some w show ?thesis by (simp add: upgrade_handle_cb_def)
    next
      case True
      have n: "\<not> neutral c"
        using Upgrade_handle_cb by (simp add: neutral_def)
      note r = waits_resume [OF w Some True n]
      obtain key rest where sh: "shift ms = (key, rest)"
        by (cases "shift ms")
      from r(4) Upgrade_handle_cb
      have "kind_at (resume i c w) i (Upgrade_select_cb key rest)"
        by (auto intro: kind_at_family)
      with r(1,2) have "waits_ok (nextMuxer (resume i c w) i rest key)"
        by (simp add: nextMuxer_def waits_await)
      with Upgrade_handle_cb Some True sh waits_didUpgrade [OF r(1) r(2)] show ?thesis
        by (simp add: upgrade_handle_cb_def split: option.splits)
    qed
  qed
qed (use w in \<open>simp_all add: upgrade_handle_cb_def\<close>)

lemma waits_upgrade_select_cb:
  assumes w: "waits_ok w"
  shows "waits_ok (upgrade_select_cb w i c res)"
proof (cases c)
  case (Upgrade_select_cb key ms)
  show ?thesis
  proof (cases "fsms w i")
    case None
    with Upgrade_select_cb w show ?thesis by (simp add: upgrade_select_cb_def)
  next
    case (Some f)
    show ?thesis
    proof (cases "c \<in> set (waiting f)")
      case False
      with Upgrade_select_cb Some w show ?thesis by (simp add: upgrade_select_cb_def)
    next
      case True
      have n: "\<not> neutral c"
        using Upgrade_select_cb by (simp add: neutral_def)
      note r = waits_resume [OF w Some True n]
      obtain k rest where sh: "shift ms = (k, rest)"
        by (cases "shift ms")
      from r(4) Upgrade_select_cb
      have "kind_at (resume i c w) i (Upgrade_select_cb k rest)"
        by (auto intro: kind_at_family)
      with r(1,2) have nm: "waits_ok (nextMuxer (resume i c w) i rest k)"
        by (simp add: nextMuxer_def waits_await)
      have "waits_ok (didUpgrade (install_muxer (resume i c w) i k' x) i None)" for k' x
        using r(1,2) by (intro waits_didUpgrade) simp_all
      with Upgrade_select_cb Some True sh nm r(1) waits_didUpgrade [OF r(1) r(2)]
      show ?thesis
        by (auto simp: upgrade_select_cb_def split: option.splits sum.splits)
    qed
  qed
qed (use w in \<open>simp_all add: upgrade_select_cb_def\<close>)

lemma waits_protect_cb:
  assumes w: "waits_ok w"
  shows "waits_ok (protect_cb w i c res)"
proof (cases c)
  case Protect_cb
  show ?thesis
  proof (cases "fsms w i")
    case None
    with Protect_cb w show ?thesis by (simp add: protect_cb_def)
  next
    case (Some f)
    show ?thesis
    proof (cases "c \<in> set (waiting f)")
      case False
      with Protect_cb Some w show ?thesis by (simp add: protect_cb_def)
    next
      case True
      have n: "\<not> neutral c"
        using Protect_cb by (simp add: neutral_def)
      note r = waits_resume [OF w Some True n]
      from r(1,2) Protect_cb Some True show ?thesis
        by (simp add: protect_cb_def waits_state_emit split: sum.splits)
    qed
  qed
qed (use w in \<open>simp_all add: protect_cb_def\<close>)

lemma waits_encrypt_handle_cb:
  assumes w: "waits_ok w"
  shows "waits_ok (encrypt_handle_cb w i c e)"
proof (cases c)
  case Encrypt_handle_cb
  show ?thesis
  proof (cases "fsms w i")
    case None
    with Encrypt_handle_cb w show ?thesis by (simp add: encrypt_handle_cb_def)
  next
    case (Some f)
    show ?thesis
    proof (cases "c \<in> set (waiting f)")
      case False
      with Encrypt_handle_cb Some w show ?thesis by (simp add: encrypt_handle_cb_def)
    next
      case True
      have n: "\<not> neutral c"
        using Encrypt_handle_cb by (simp add: neutral_def)
      note r = waits_resume [OF w Some True n]
      from r(4) Encrypt_handle_cb have "kind_at (resume i c w) i Encrypt_select_cb"
        by (auto intro: kind_at_family)
      with r(1,2) Encrypt_handle_cb Some True show ?thesis
        by (simp add: encrypt_handle_cb_def waits_state_emit waits_await split: option.splits)
    qed
  qed
qed (use w in \<open>simp_all add: encrypt_handle_cb_def\<close>)

lemma waits_encrypt_select_cb:
  assumes w: "waits_ok w"
  shows "waits_ok (encrypt_select_cb w i c res)"
proof (cases c)
  case Encrypt_select_cb
  show ?thesis
  proof (cases "fsms w i")
    case None
    with Encrypt_select_cb w show ?thesis by (simp add: encrypt_select_cb_def)
  next
    case (Some f)
    show ?thesis
    proof (cases "c \<in> set (waiting f)")
      case False
      with Encrypt_select_cb Some w show ?thesis by (simp add: encrypt_select_cb_def)
    next
      case True
      have n: "\<not> neutral c"
        using Encrypt_select_cb by (simp add: neutral_def)
      note r = waits_resume [OF w Some True n]
      from r(4) Encrypt_select_cb have "kind_at (resume i c w) i Encrypt_crypto_cb"
        by (auto intro: kind_at_family)
      with r(1,2) Encrypt_select_cb Some True show ?thesis
        by (simp add: encrypt_select_cb_def waits_state_emit waits_await Let_def
            split: sum.splits option.splits)
    qed
  qed
qed (use w in \<open>simp_all add: encrypt_select_cb_def\<close>)

lemma waits_encrypt_crypto_cb:
  assumes w: "waits_ok w"
  shows "waits_ok (encrypt_crypto_cb w i c e)"
proof (cases c)
  case Encrypt_crypto_cb
  show ?thesis
  proof (cases "fsms w i")
    case None
    with Encrypt_crypto_cb w show ?thesis by (simp add: encrypt_crypto_cb_def)
  next
    case (Some f)
    show ?thesis
    proof (cases "c \<in> set (waiting f)")
      case False
      with Encrypt_crypto_cb Some w show ?thesis by (simp add: encrypt_crypto_cb_def)
    next
      case True
      have n: "\<not> neutral c"
        using Encrypt_crypto_cb by (simp add: neutral_def)
      note r = waits_resume [OF w Some True n]
      from r(1,2) Encrypt_crypto_cb Some True show ?thesis
        by (simp add: encrypt_crypto_cb_def waits_state_emit split: option.splits)
    qed
  qed
qed (use w in \<open>simp_all add: encrypt_crypto_cb_def\<close>)

lemma neutral_simps [simp]:
  "neutral (New_stream_cb p k)"
  "neutral (Handshake_handle_cb p k)"
  "neutral (Handshake_select_cb p k)"
  by (simp_all add: neutral_def)

lemma waits_shake:
  assumes "waits_ok w"
  shows "waits_ok (shake w i protocol callback)"
    and "waits_ok (new_stream_cb w i c res)"
    and "waits_ok (handshake_handle_cb w i c e)"
    and "waits_ok (handshake_select_cb w i c res)"
  using assms
  by (auto simp: shake_def new_stream_cb_def handshake_handle_cb_def handshake_select_cb_def
      waits_neutral split: option.splits sum.splits closure.splits)

lemma waits_hangUp:
  assumes "waits_ok w"
  shows "waits_ok (hangUp w p callback)"
  using assms by (simp add: hangUp_def split: option.splits sum.splits)

lemma api_simps [simp]:
  "api Ev_privatize" "api Ev_encrypt" "api Ev_upgrade" "api Ev_abort" "api Ev_disconnect"
  by (simp_all add: api_def)

lemma waits_run_close_listeners:
  assumes "waits_ok w"
  shows "waits_ok (foldl run_close_listener w ls)"
  using assms
proof (induction ls arbitrary: w)
  case Nil
  then show ?case by simp
next
  case (Cons l ls)
  from Cons.prems have "waits_ok (run_close_listener w l)"
    by (cases l) (simp_all add: run_close_listener_def waits_state_emit)
  then show ?case
    by (simp add: Cons.IH)
qed

lemma waits_muxer_emit_close:
  assumes "waits_ok w"
  shows "waits_ok (muxer_emit_close w m)"
  unfolding muxer_emit_close_def using assms
  by (intro waits_run_close_listeners) simp

lemma waits_new_dial:
  assumes w: "waits_ok w" and fresh: "fsms w i = None"
  shows "waits_ok (dial (new_ConnectionFSM w i peer m) i)"
proof -
  let ?w = "new_ConnectionFSM w i peer m"
  have "(case fsms ?w k of None \<Rightarrow> True | Some f \<Rightarrow> wait_ok f)" for k
    using w by (auto simp: new_ConnectionFSM_def wait_ok_def pend_def
        split: option.splits dest: waits_okD)
  then have a: "waits_ok ?w"
    unfolding waits_ok_def by simp
  have b: "idle ?w i"
    by (simp add: idle_def new_ConnectionFSM_def pend_def)
  from a b show ?thesis
    by (simp add: dial_def waits_state_emit split: option.splits)
qed


subsection \<open>The table in every state of the switch\<close>

lemma table_inv_simps [simp]:
  "table_inv (act a w) = table_inv w"
  "table_inv (multiaddrs_add p x w) = table_inv w"
  "table_inv (w\<lparr>conns := cs\<rparr>) = table_inv w"
  "table_inv (w\<lparr>muxer_close := l\<rparr>) = table_inv w"
  "table_inv (w\<lparr>next_muxer := n\<rparr>) = table_inv w"
  "table_inv (await i c w) = table_inv w"
  "table_inv (resume i c w) = table_inv w"
  "table_inv (upd_fsm i (\<lambda>g. g\<lparr>conn := y\<rparr>) w) = table_inv w"
  by (simp_all add: table_inv_def ess_upd_fsm_same)

lemma table_inv_upgrade_select_cb:
  assumes inv: "table_inv w" and w: "waits_ok w"
  shows "table_inv (upgrade_select_cb w i c res)"
proof (cases c)
  case (Upgrade_select_cb key ms)
  show ?thesis
  proof (cases "fsms w i")
    case None
    with Upgrade_select_cb inv show ?thesis by (simp add: upgrade_select_cb_def)
  next
    case (Some f)
    show ?thesis
    proof (cases "c \<in> set (waiting f)")
      case False
      with Upgrade_select_cb Some inv show ?thesis by (simp add: upgrade_select_cb_def)
    next
      case True
      have n: "\<not> neutral c"
        using Upgrade_select_cb by (simp add: neutral_def)
      have "upgrade_closure c"
        using Upgrade_select_cb by (simp add: upgrade_closure_def)
      with waits_resume(3) [OF w Some True n] have s: "state f = UPGRADING"
        by (rule kind_ok_upgrade)
      have r: "table_inv (resume i c w)"
        using inv by simp
      have fr: "fsms (resume i c w) i = Some (f\<lparr>waiting := remove1 c (waiting f)\<rparr>)"
        using Some by (simp add: fsms_resume)
      obtain k rest where sh: "shift ms = (k, rest)"
        by (cases "shift ms")
      have ok: "table_inv (didUpgrade (install_muxer (resume i c w) i k' x) i None)" for k' x
        by (rule table_inv_select_success [OF r fr]) (simp add: s)
      from Upgrade_select_cb Some True sh inv ok table_inv_didUpgrade_error [OF r]
        table_inv_nextMuxer [OF inv]
      show ?thesis
        by (auto simp: upgrade_select_cb_def split: option.splits sum.splits)
    qed
  qed
qed (use inv in \<open>simp_all add: upgrade_select_cb_def\<close>)

lemma table_inv_callbacks:
  assumes "table_inv w"
  shows "table_inv (protect_cb w i c res)"
    and "table_inv (encrypt_handle_cb w i c e)"
    and "table_inv (encrypt_select_cb w i c res)"
    and "table_inv (encrypt_crypto_cb w i c e)"
    and "table_inv (new_stream_cb w i c res)"
    and "table_inv (handshake_handle_cb w i c e)"
    and "table_inv (handshake_select_cb w i c res)"
  using assms
  by (auto simp: protect_cb_def encrypt_handle_cb_def encrypt_select_cb_def
      encrypt_crypto_cb_def new_stream_cb_def handshake_handle_cb_def
      handshake_select_cb_def Let_def table_inv_state_emit
      split: option.splits sum.splits closure.splits)

lemma table_inv_hangUp:
  assumes "table_inv w"
  shows "table_inv (hangUp w p callback)"
  using assms by (simp add: hangUp_def split: option.splits sum.splits)

lemma table_inv_remove:
  assumes "table_inv w"
  shows "table_inv (w\<lparr>muxedConns := (muxedConns w)(key := None)\<rparr>)"
  using assms unfolding table_inv_def by simp

lemma table_inv_run_close_listeners:
  assumes "table_inv w"
  shows "table_inv (foldl run_close_listener w ls)"
  using assms
proof (induction ls arbitrary: w)
  case Nil
  then show ?case by simp
next
  case (Cons l ls)
  from Cons.prems have "table_inv (run_close_listener w l)"
    by (cases l)
       (simp_all add: run_close_listener_def table_inv_state_emit table_inv_remove Let_def)
  then show ?case
    by (simp add: Cons.IH)
qed

lemma table_inv_muxer_emit_close:
  assumes "table_inv w"
  shows "table_inv (muxer_emit_close w m)"
  unfolding muxer_emit_close_def using assms
  by (intro table_inv_run_close_listeners) simp

lemma table_inv_new:
  assumes inv: "table_inv w" and fresh: "fsms w i = None"
  shows "table_inv (new_ConnectionFSM w i peer m)"
  unfolding table_inv_def
proof (intro allI impI)
  fix P j
  assume "muxedConns (new_ConnectionFSM w i peer m) P = Some j"
  then have "muxedConns w P = Some j"
    by (simp add: new_ConnectionFSM_def)
  with inv have e: "ess w j = Some (MUXED, P)"
    unfolding table_inv_def by blast
  with fresh have "j \<noteq> i"
    by (auto simp: ess_def)
  with e show "ess (new_ConnectionFSM w i peer m) j = Some (MUXED, P)"
    by (simp add: ess_def new_ConnectionFSM_def)
qed

lemma table_inv_dial:
  assumes "table_inv w"
  shows "table_inv (dial w i)"
  using assms by (simp add: dial_def table_inv_state_emit split: option.splits)

lemma table_inv_shake:
  assumes "table_inv w"
  shows "table_inv (shake w i protocol callback)"
  using assms by (simp add: shake_def split: option.splits)

text \<open>
  The states of the switch between two handlers. A switch starts with empty tables and
  registries change. An FSM is created for a dial and dialled then: the FSMs are
  created per dial, and one that is back in \<open>DISCONNECTED\<close> is not used again. From
  outside, at any time and on any FSM, \<open>protect()\<close>, \<open>encrypt()\<close>, \<open>upgrade()\<close> and
  \<open>shake\<close> are called, \<open>abort\<close> and \<open>disconnect\<close> are triggered, and \<open>hangUp\<close> is called on
  the switch. An operation in flight completes at any time, with any result, and its
  callback runs; a muxer emits \<open>close\<close> at any time. The events \<open>done\<close>, \<open>stop\<close> and
  \<open>error\<close> are triggered by the handlers and callbacks only.
\<close>

inductive reachable :: "world \<Rightarrow> bool" where
  init: "conns w = Map.empty \<Longrightarrow> muxedConns w = Map.empty \<Longrightarrow> fsms w = Map.empty
    \<Longrightarrow> reachable w"
| register: "reachable w \<Longrightarrow> reachable (w\<lparr>transports := ts, muxers := ms\<rparr>)"
| create: "reachable w \<Longrightarrow> fsms w i = None
    \<Longrightarrow> reachable (dial (new_ConnectionFSM w i peer m) i)"
| call_protect: "reachable w \<Longrightarrow> reachable (protect w i)"
| call_encrypt: "reachable w \<Longrightarrow> reachable (encrypt w i)"
| call_upgrade: "reachable w \<Longrightarrow> reachable (upgrade w i)"
| call_abort: "reachable w \<Longrightarrow> reachable (abort_fsm w i)"
| call_disconnect: "reachable w \<Longrightarrow> reachable (disconnect w i)"
| call_shake: "reachable w \<Longrightarrow> reachable (shake w i protocol callback)"
| call_hangUp: "reachable w \<Longrightarrow> reachable (hangUp w p callback)"
| dialled: "reachable w \<Longrightarrow> reachable (transport_dial_cb w i c res)"
| protected: "reachable w \<Longrightarrow> reachable (protect_cb w i c res)"
| crypto_handled: "reachable w \<Longrightarrow> reachable (encrypt_handle_cb w i c e)"
| crypto_selected: "reachable w \<Longrightarrow> reachable (encrypt_select_cb w i c res)"
| encrypted: "reachable w \<Longrightarrow> reachable (encrypt_crypto_cb w i c e)"
| handled: "reachable w \<Longrightarrow> reachable (upgrade_handle_cb w i c e)"
| selected: "reachable w \<Longrightarrow> reachable (upgrade_select_cb w i c res)"
| stream_opened: "reachable w \<Longrightarrow> reachable (new_stream_cb w i c res)"
| stream_handled: "reachable w \<Longrightarrow> reachable (handshake_handle_cb w i c e)"
| stream_selected: "reachable w \<Longrightarrow> reachable (handshake_select_cb w i c res)"
| closed: "reachable w \<Longrightarrow> reachable (muxer_emit_close w m)"

lemma reachable_inv:
  assumes "reachable w"
  shows "table_inv w \<and> waits_ok w"
  using assms
proof (induction rule: reachable.induct)
  case (init w)
  then show ?case by (simp add: table_inv_def waits_ok_def)
next
  case (register w ts ms)
  then show ?case by (simp add: table_inv_def ess_def waits_ok_def)
next
  case (create w i peer m)
  then show ?case by (simp add: table_inv_new table_inv_dial waits_new_dial)
next
  case (call_protect w i)
  then show ?case by (simp add: protect_def table_inv_state_emit waits_state_emit)
next
  case (call_encrypt w i)
  then show ?case by (simp add: encrypt_def table_inv_state_emit waits_state_emit)
next
  case (call_upgrade w i)
  then show ?case by (simp add: upgrade_def table_inv_state_emit waits_state_emit)
next
  case (call_abort w i)
  then show ?case by (simp add: abort_fsm_def table_inv_state_emit waits_state_emit)
next
  case (call_disconnect w i)
  then show ?case by (simp add: disconnect_def table_inv_state_emit waits_state_emit)
next
  case (call_shake w i protocol callback)
  then show ?case by (simp add: table_inv_shake waits_shake)
next
  case (call_hangUp w p callback)
  then show ?case by (simp add: table_inv_hangUp waits_hangUp)
next
  case (dialled w i c res)
  then show ?case by (simp add: table_inv_transport_dial_cb waits_transport_dial_cb)
next
  case (protected w i c res)
  then show ?case by (simp add: table_inv_callbacks waits_protect_cb)
next
  case (crypto_handled w i c e)
  then show ?case by (simp add: table_inv_callbacks waits_encrypt_handle_cb)
next
  case (crypto_selected w i c res)
  then show ?case by (simp add: table_inv_callbacks waits_encrypt_select_cb)
next
  case (encrypted w i c e)
  then show ?case by (simp add: table_inv_callbacks waits_encrypt_crypto_cb)
next
  case (handled w i c e)
  then show ?case by (simp add: table_inv_upgrade_handle_cb waits_upgrade_handle_cb)
next
  case (selected w i c res)
  then show ?case by (simp add: table_inv_upgrade_select_cb waits_upgrade_select_cb)
next
  case (stream_opened w i c res)
  then show ?case by (simp add: table_inv_callbacks waits_shake)
next
  case (stream_handled w i c e)
  then show ?case by (simp add: table_inv_callbacks waits_shake)
next
  case (stream_selected w i c res)
  then show ?case by (simp add: table_inv_callbacks waits_shake)
next
  case (closed w m)
  then show ?case by (simp add: table_inv_muxer_emit_close waits_muxer_emit_close)
qed

text \<open>The callback of a muxer selection, or of the handshake before it, runs while its
  FSM is \<open>UPGRADING\<close>.\<close>

lemma upgrade_callback_while_upgrading:
  assumes r: "reachable w" and f: "fsms w i = Some f"
    and c: "c \<in> set (waiting f)" and u: "upgrade_closure c"
  shows "state f = UPGRADING"
proof -
  from reachable_inv [OF r] have w: "waits_ok w" ..
  from u have "\<not> neutral c"
    by (cases c) (simp_all add: upgrade_closure_def neutral_def)
  from waits_resume(3) [OF w f c this] u show ?thesis
    by (rule kind_ok_upgrade)
qed

text \<open>A run of the switch \<open>world0\<close>: an FSM for \<open>QmRemote\<close> is created and dialled, the
  dial over \<open>tcp\<close> succeeds, \<open>encrypt()\<close> is called and the three steps of the encryption
  succeed, \<open>upgrade()\<close> is called and the multistream handshake succeeds; the FSM waits
  for the selection of the muxer.\<close>

definition world_dialed :: world where
  "world_dialed =
     transport_dial_cb (dial (new_ConnectionFSM world0 0 ''QmRemote'' None) 0) 0
       (Dial_cb ''tcp'' [] False True) (Inr (Raw_conn 0))"

definition world_secured :: world where
  "world_secured =
     encrypt_crypto_cb
       (encrypt_select_cb
          (encrypt_handle_cb (encrypt world_dialed 0) 0 Encrypt_handle_cb None) 0
          Encrypt_select_cb (Inr (Raw_conn 1))) 0
       Encrypt_crypto_cb None"




lemma world_dialed_fsm:
  "fsms world_dialed 0 =
     Some \<lparr>theirPeerInfo = Some ''QmRemote'', theirB58Id = ''QmRemote'',
       ourPeerInfo = Some ''QmLocal'',
       conn = Some (Observed (Some ''tcp'') None (Raw_conn 0)), muxer = None,
       state = DIALED, waiting = []\<rparr>"
  by (simp add: world_dialed_def world0_def
      new_ConnectionFSM_def dial_def state_emit.simps next_state_def conn_table_def
      on_enter_def onDialing_def hasTransports_def Circuit_tag_def Let_def shift_def
      nextTransport_def falsy_def transport_dial_def await_def resume_def upd_fsm_def act_def
      transport_dial_cb_def)

lemma world_dialed_fields:
  "muxers world_dialed = [''/mplex/6.7.0'']"
  "crypto_tag world_dialed = ''/plaintext/1.0.0''"
  "muxedConns world_dialed = Map.empty"
  "next_muxer world_dialed = 0"
  by (simp_all add: world_dialed_def world0_def
      new_ConnectionFSM_def dial_def state_emit.simps next_state_def conn_table_def
      on_enter_def onDialing_def hasTransports_def Circuit_tag_def Let_def shift_def
      nextTransport_def falsy_def transport_dial_def await_def resume_def upd_fsm_def act_def
      transport_dial_cb_def)


lemmas run_defs =
  world0_def new_ConnectionFSM_def dial_def state_emit.simps next_state_def conn_table_def
  on_enter_def onDialing_def hasTransports_def Circuit_tag_def Let_def shift_def
  nextTransport_def falsy_def transport_dial_def await_def resume_def upd_fsm_def act_def
  transport_dial_cb_def encrypt_def onEncrypting_def encrypt_handle_cb_def
  encrypt_select_cb_def encrypt_crypto_cb_def upgrade_def onUpgrading_def
  upgrade_handle_cb_def nextMuxer_def upgrade_select_cb_def install_muxer_def didUpgrade_def

lemma world_secured_fsm:
  "fsms world_secured 0 =
     Some \<lparr>theirPeerInfo = Some ''QmRemote'', theirB58Id = ''QmRemote'',
       ourPeerInfo = Some ''QmLocal'',
       conn = Some (Encrypted (Observed None (Some ''/plaintext/1.0.0'') (Raw_conn 1))),
       muxer = None, state = ENCRYPTED, waiting = []\<rparr>"
  by (simp add: world_secured_def world_dialed_def run_defs)




subsection \<open>Paths in the transition graphs\<close>








subsection \<open>The inbound connection under its listener\<close>



















section \<open>The dial queue manager\<close>

text \<open>\<open>DialQueueManager\<close> (handler.js, lines 159-237).\<close>

definition MAX_PARALLEL_DIALS :: int where
  "MAX_PARALLEL_DIALS = 10"

record dial_request =
  dr_peerInfo :: b58
  dr_protocol :: "string option"
  dr_useFSM :: bool
  dr_callback :: nat

text \<open>Modelled from the spec: the per-peer queue \<open>Queue\<close> of \<open>./queue\<close>, which is not among
  the sources: a FIFO of pending requests for one remote peer and a running flag. Adding
  to an idle queue starts it; when the queue is drained and idle it stops and invokes
  \<open>onStop\<close> on the manager; aborting it calls every pending callback with an abort
  error.\<close>

record peer_queue =
  isRunning :: bool
  pq_queue :: "(string option \<times> bool \<times> nat) list"

definition new_Queue :: peer_queue where
  "new_Queue = \<lparr>isRunning = False, pq_queue = []\<rparr>"

definition queue_add :: "peer_queue \<Rightarrow> string option \<times> bool \<times> nat \<Rightarrow> peer_queue" where
  "queue_add q x = q\<lparr>pq_queue := pq_queue q @ [x], isRunning := True\<rparr>"

definition queue_abort :: "peer_queue \<Rightarrow> peer_queue" where
  "queue_abort q = q\<lparr>pq_queue := []\<rparr>"

text \<open>The manager: \<open>_queue\<close>, \<open>_queues\<close> (an object keyed by the peer's id, here the list
  of its entries in insertion order) and \<open>dials\<close>.\<close>

record manager =
  mgr_queue :: "dial_request list"
  mgr_queues :: "(b58 \<times> peer_queue) list"
  dials :: int

definition new_DialQueueManager :: manager where
  "new_DialQueueManager = \<lparr>mgr_queue = [], mgr_queues = [], dials = 0\<rparr>"

definition set_queue :: "b58 \<Rightarrow> peer_queue \<Rightarrow> (b58 \<times> peer_queue) list \<Rightarrow> (b58 \<times> peer_queue) list" where
  "set_queue p q qs = map (\<lambda>(k, v). if k = p then (k, q) else (k, v)) qs"

text \<open>\<open>getQueue(peerInfo)\<close> (handler.js, lines 229-234).\<close>

definition getQueue :: "manager \<Rightarrow> b58 \<Rightarrow> manager \<times> peer_queue" where
  "getQueue m p =
     (case map_of (mgr_queues m) p of
        Some q \<Rightarrow> (m, q)
      | None \<Rightarrow> (m\<lparr>mgr_queues := mgr_queues m @ [(p, new_Queue)]\<rparr>, new_Queue))"

text \<open>\<open>run()\<close> (handler.js, lines 208-217).\<close>

definition run :: "manager \<Rightarrow> manager" where
  "run m =
     (if dials m < MAX_PARALLEL_DIALS \<and> length (mgr_queue m) > 0 then
        (case mgr_queue m of
           [] \<Rightarrow> m
         | r # rest \<Rightarrow>
             (let (m1, dialQueue) = getQueue (m\<lparr>mgr_queue := rest\<rparr>) (dr_peerInfo r);
                  m2 = (if \<not> isRunning dialQueue then m1\<lparr>dials := dials m1 + 1\<rparr> else m1)
              in m2\<lparr>mgr_queues := set_queue (dr_peerInfo r)
                     (queue_add dialQueue (dr_protocol r, dr_useFSM r, dr_callback r))
                     (mgr_queues m2)\<rparr>))
      else m)"

text \<open>\<open>add(dialRequest)\<close> (handler.js, lines 198-203).\<close>

definition add :: "manager \<Rightarrow> dial_request \<Rightarrow> manager" where
  "add m r = run (m\<lparr>mgr_queue := mgr_queue m @ [r]\<rparr>)"

text \<open>\<open>onQueueStopped()\<close> (handler.js, lines 219-222).\<close>

definition onQueueStopped :: "manager \<Rightarrow> manager" where
  "onQueueStopped m = run (m\<lparr>dials := dials m - 1\<rparr>)"

text \<open>\<open>abort()\<close> (handler.js, lines 186-191).\<close>

definition abort :: "manager \<Rightarrow> manager" where
  "abort m = m\<lparr>mgr_queues := map (\<lambda>(k, q). (k, queue_abort q)) (mgr_queues m)\<rparr>"

text \<open>A running queue is drained and idle: it stops and invokes \<open>onStop\<close>, which the
  manager bound to \<open>onQueueStopped\<close> (handler.js, line 232).\<close>

definition queue_stops :: "manager \<Rightarrow> b58 \<Rightarrow> manager" where
  "queue_stops m p =
     (case map_of (mgr_queues m) p of
        None \<Rightarrow> m
      | Some q \<Rightarrow>
          if isRunning q then
            onQueueStopped
              (m\<lparr>mgr_queues := set_queue p (q\<lparr>isRunning := False, pq_queue := []\<rparr>)
                    (mgr_queues m)\<rparr>)
          else m)"

definition running :: "manager \<Rightarrow> nat" where
  "running m = length (filter (\<lambda>(k, q). isRunning q) (mgr_queues m))"

inductive manager_reachable :: "manager \<Rightarrow> bool" where
  created: "manager_reachable new_DialQueueManager"
| added: "manager_reachable m \<Longrightarrow> manager_reachable (add m r)"
| stopped: "manager_reachable m \<Longrightarrow> manager_reachable (queue_stops m p)"
| aborted: "manager_reachable m \<Longrightarrow> manager_reachable (abort m)"

definition manager_inv :: "manager \<Rightarrow> bool" where
  "manager_inv m =
     (distinct (map fst (mgr_queues m)) \<and> dials m = int (running m)
      \<and> dials m \<le> MAX_PARALLEL_DIALS)"

lemma running_set_queue:
  assumes "distinct (map fst qs)" and "map_of qs p = Some q"
  shows "length (filter (\<lambda>(k, q). isRunning q) (set_queue p q' qs))
    = length (filter (\<lambda>(k, q). isRunning q) qs)
      + (if isRunning q' then 1 else 0) - (if isRunning q then 1 else 0)"
  using assms
proof (induction qs)
  case Nil
  then show ?case by simp
next
  case (Cons a qs)
  obtain k v where a: "a = (k, v)" by (cases a)
  show ?case
  proof (cases "k = p")
    case True
    with Cons.prems a have v: "v = q" and notin: "p \<notin> fst ` set qs"
      by auto
    from notin have "set_queue p q' qs = qs"
      by (induction qs) (auto simp: set_queue_def)
    with True a v show ?thesis
      by (simp add: set_queue_def)
  next
    case False
    with Cons.prems a have d: "distinct (map fst qs)" and m: "map_of qs p = Some q"
      by auto
    have pos: "isRunning q \<Longrightarrow> 0 < length (filter (\<lambda>(k, q). isRunning q) qs)"
      using m by (auto simp: filter_empty_conv dest!: map_of_SomeD)
    from Cons.IH [OF d m] False a pos show ?thesis
      by (auto simp: set_queue_def)
  qed
qed

lemma fst_set_queue [simp]: "map fst (set_queue p q qs) = map fst qs"
  by (induction qs) (auto simp: set_queue_def)


lemma manager_inv_run:
  assumes "manager_inv m"
  shows "manager_inv (run m)"
proof (cases "dials m < MAX_PARALLEL_DIALS \<and> length (mgr_queue m) > 0")
  case False
  with assms show ?thesis by (simp add: run_def)
next
  case True
  then obtain r rest where q: "mgr_queue m = r # rest"
    by (cases "mgr_queue m") auto
  let ?p = "dr_peerInfo r"
  let ?x = "(dr_protocol r, dr_useFSM r, dr_callback r)"
  from assms have d: "distinct (map fst (mgr_queues m))"
    and n: "dials m = int (running m)"
    by (simp_all add: manager_inv_def)
  show ?thesis
  proof (cases "map_of (mgr_queues m) ?p")
    case None
    let ?qs = "mgr_queues m @ [(?p, new_Queue)]"
    have notin: "?p \<notin> fst ` set (mgr_queues m)"
      using None by (simp add: map_of_eq_None_iff)
    have d': "distinct (map fst ?qs)"
      using d notin by simp
    have m': "map_of ?qs ?p = Some new_Queue"
      using None by (simp add: map_add_Some_iff)
    have r: "run m = m\<lparr>mgr_queue := rest, dials := dials m + 1,
        mgr_queues := set_queue ?p (queue_add new_Queue ?x) ?qs\<rparr>"
      using True q None by (simp add: run_def getQueue_def new_Queue_def)
    have "length (filter (\<lambda>(k, q). isRunning q) (set_queue ?p (queue_add new_Queue ?x) ?qs))
        = running m + 1"
      using running_set_queue [OF d' m', of "queue_add new_Queue ?x"]
      by (simp add: running_def queue_add_def new_Queue_def)
    with True d' n show ?thesis
      unfolding r by (simp add: manager_inv_def running_def)
  next
    case (Some dq)
    have pos: "isRunning dq \<Longrightarrow> 0 < running m"
      using Some by (auto simp: running_def filter_empty_conv dest!: map_of_SomeD)
    have r: "run m = m\<lparr>mgr_queue := rest,
        dials := (if isRunning dq then dials m else dials m + 1),
        mgr_queues := set_queue ?p (queue_add dq ?x) (mgr_queues m)\<rparr>"
      using True q Some by (simp add: run_def getQueue_def)
    have "length (filter (\<lambda>(k, q). isRunning q) (set_queue ?p (queue_add dq ?x) (mgr_queues m)))
        = running m + 1 - (if isRunning dq then 1 else 0)"
      using running_set_queue [OF d Some, of "queue_add dq ?x"]
      by (simp add: running_def queue_add_def)
    with True d n pos show ?thesis
      unfolding r by (auto simp: manager_inv_def running_def)
  qed
qed

lemma manager_inv_add:
  assumes "manager_inv m"
  shows "manager_inv (add m r)"
  unfolding add_def
  by (rule manager_inv_run) (use assms in \<open>simp add: manager_inv_def running_def\<close>)

lemma manager_inv_abort:
  assumes "manager_inv m"
  shows "manager_inv (abort m)"
proof -
  have a: "map (fst \<circ> (\<lambda>(k, q). (k, queue_abort q))) qs = map fst qs" for qs
    by (induction qs) auto
  have b: "length (filter ((\<lambda>(k, q). isRunning q) \<circ> (\<lambda>(k, q). (k, queue_abort q))) qs)
      = length (filter (\<lambda>(k, q). isRunning q) qs)" for qs
    by (induction qs) (auto simp: queue_abort_def)
  show ?thesis
    using assms by (simp add: manager_inv_def running_def abort_def a b)
qed

lemma manager_inv_queue_stops:
  assumes "manager_inv m"
  shows "manager_inv (queue_stops m p)"
proof (cases "map_of (mgr_queues m) p")
  case None
  with assms show ?thesis by (simp add: queue_stops_def)
next
  case (Some q)
  show ?thesis
  proof (cases "isRunning q")
    case False
    with Some assms show ?thesis by (simp add: queue_stops_def)
  next
    case True
    let ?q' = "q\<lparr>isRunning := False, pq_queue := []\<rparr>"
    let ?m1 = "m\<lparr>mgr_queues := set_queue p ?q' (mgr_queues m)\<rparr>"
    from assms have d: "distinct (map fst (mgr_queues m))"
      and n: "dials m = int (running m)" and c: "dials m \<le> MAX_PARALLEL_DIALS"
      by (simp_all add: manager_inv_def)
    have pos: "0 < running m"
      using Some True by (auto simp: running_def filter_empty_conv dest!: map_of_SomeD)
    have "running ?m1 = running m - 1"
      using running_set_queue [OF d Some, of ?q'] True by (simp add: running_def)
    moreover from pos have "int (running m - 1) = int (running m) - 1"
      by simp
    ultimately have "dials m - 1 = int (running ?m1)"
      using n by simp
    with d c have "manager_inv (?m1\<lparr>dials := dials ?m1 - 1\<rparr>)"
      by (simp add: manager_inv_def running_def)
    then have "manager_inv (onQueueStopped ?m1)"
      unfolding onQueueStopped_def by (rule manager_inv_run)
    with Some True show ?thesis
      by (simp add: queue_stops_def)
  qed
qed

lemma manager_reachable_inv:
  assumes "manager_reachable m"
  shows "manager_inv m"
  using assms
proof (induction rule: manager_reachable.induct)
  case created
  show ?case
    by (simp add: manager_inv_def new_DialQueueManager_def running_def MAX_PARALLEL_DIALS_def)
next
  case (added m r)
  then show ?case by (simp add: manager_inv_add)
next
  case (stopped m p)
  then show ?case by (simp add: manager_inv_queue_stops)
next
  case (aborted m)
  then show ?case by (simp add: manager_inv_abort)
qed

text \<open>
  C7: the manager is created, requests are added, running queues stop when they are
  drained, and the manager is aborted, in any order. At every point of such a run at
  most \<open>MAX_PARALLEL_DIALS = 10\<close> per-peer queues are running, and \<open>dials\<close> is their
  number. \<open>run()\<close> routes nothing when \<open>dials\<close> has reached the cap; when it routes the
  first request it increments \<open>dials\<close> only if the queue of the request's peer is idle,
  before it starts that queue (creating the queue starts nothing);
  \<open>onQueueStopped\<close> decrements \<open>dials\<close> and calls \<open>run()\<close>.
\<close>

theorem C7_parallel_dials:
  assumes "manager_reachable m"
  shows "int (running m) \<le> MAX_PARALLEL_DIALS \<and> MAX_PARALLEL_DIALS = 10
    \<and> dials m = int (running m)
    \<and> (MAX_PARALLEL_DIALS \<le> dials m \<longrightarrow> run m = m)
    \<and> (dials m < MAX_PARALLEL_DIALS \<and> mgr_queue m = r # rest \<longrightarrow>
        dials (run m) =
          (case map_of (mgr_queues m) (dr_peerInfo r) of
             None \<Rightarrow> dials m + 1
           | Some q \<Rightarrow> if isRunning q then dials m else dials m + 1))
    \<and> running (fst (getQueue (m\<lparr>mgr_queue := rest\<rparr>) p)) = running m
    \<and> onQueueStopped m = run (m\<lparr>dials := dials m - 1\<rparr>)"
proof -
  have "running (fst (getQueue (m\<lparr>mgr_queue := rest\<rparr>) p)) = running m"
    by (simp add: getQueue_def running_def new_Queue_def split: option.splits)
  moreover from manager_reachable_inv [OF assms]
  have "int (running m) \<le> MAX_PARALLEL_DIALS" and "dials m = int (running m)"
    by (simp_all add: manager_inv_def)
  moreover have "MAX_PARALLEL_DIALS \<le> dials m \<longrightarrow> run m = m"
    by (simp add: run_def)
  moreover have "dials m < MAX_PARALLEL_DIALS \<and> mgr_queue m = r # rest \<longrightarrow>
        dials (run m) =
          (case map_of (mgr_queues m) (dr_peerInfo r) of
             None \<Rightarrow> dials m + 1
           | Some q \<Rightarrow> if isRunning q then dials m else dials m + 1)"
    by (simp add: run_def getQueue_def new_Queue_def split: option.splits)
  ultimately show ?thesis
    by (simp add: onQueueStopped_def MAX_PARALLEL_DIALS_def)
qed


text \<open>Ten requests to ten peers fill the manager; two more requests to the first peer
  wait; then the queue of the second peer stops.\<close>

definition request :: "b58 \<Rightarrow> dial_request" where
  "request p = \<lparr>dr_peerInfo = p, dr_protocol = Some ''/echo/1.0.0'', dr_useFSM = False,
     dr_callback = 0\<rparr>"

definition manager_full :: manager where
  "manager_full =
     foldl add new_DialQueueManager
       (map request [''Qm0'', ''Qm1'', ''Qm2'', ''Qm3'', ''Qm4'', ''Qm5'', ''Qm6'', ''Qm7'',
          ''Qm8'', ''Qm9'', ''Qm0'', ''Qm0''])"

definition manager_after_stop :: manager where
  "manager_after_stop = queue_stops manager_full ''Qm1''"

lemma manager_reachable_adds:
  assumes "manager_reachable m"
  shows "manager_reachable (foldl add m rs)"
  using assms by (induction rs arbitrary: m) (simp_all add: manager_reachable.added)

theorem C7_parallel_dials_witness:
  "manager_reachable manager_full \<and> running manager_full = 10 \<and> dials manager_full = 10
   \<and> length (mgr_queue manager_full) = 2 \<and> run manager_full = manager_full
   \<and> manager_reachable manager_after_stop \<and> running manager_after_stop = 9
   \<and> mgr_queue manager_after_stop = [request ''Qm0'']
   \<and> dials (run manager_after_stop) = 9"
proof -
  have r1: "manager_reachable manager_full"
    unfolding manager_full_def by (rule manager_reachable_adds [OF manager_reachable.created])
  have r2: "manager_reachable manager_after_stop"
    unfolding manager_after_stop_def by (rule manager_reachable.stopped [OF r1])
  have e1: "running manager_full = 10" "length (mgr_queue manager_full) = 2"
    by code_simp+
  have e2: "running manager_after_stop = 9" "mgr_queue manager_after_stop = [request ''Qm0'']"
      "map_of (mgr_queues manager_after_stop) (dr_peerInfo (request ''Qm0''))
        = Some \<lparr>isRunning = True,
            pq_queue = [(Some ''/echo/1.0.0'', False, 0), (Some ''/echo/1.0.0'', False, 0)]\<rparr>"
    by code_simp+
  note a = C7_parallel_dials [OF r1, of "request ''Qm0''" "[request ''Qm0'']"]
  note b = C7_parallel_dials [OF r2, of "request ''Qm0''" "[]"]
  from a e1 have "dials manager_full = 10" "run manager_full = manager_full"
    by simp_all
  moreover from b e2 have "dials (run manager_after_stop) = 9"
    by (simp add: MAX_PARALLEL_DIALS_def)
  ultimately show ?thesis
    using r1 r2 e1 e2 by simp
qed



end
